theory Spec2Isabelle
  imports Main "HOL-Library.Word"
begin

section \<open>The descriptor I/O core of onposix (PosixDescriptor.cpp)\<close>

text \<open>
  A shallow embedding of \<^verbatim>\<open>src/src/PosixDescriptor.cpp\<close>: the two full-transfer loops
  \<^verbatim>\<open>__read\<close> and \<^verbatim>\<open>__write\<close>, the five synchronous \<^verbatim>\<open>read\<close>/\<^verbatim>\<open>write\<close> overloads and the
  asynchronous runner \<^verbatim>\<open>AsyncThread\<close> (\<^verbatim>\<open>startAsyncOperation\<close>, \<^verbatim>\<open>run\<close>).

  Every function takes the state of the system and returns an outcome together with the new
  state. A C++ exception is the outcome \<open>Throws\<close>; a call that never comes back (a \<^verbatim>\<open>::read\<close>
  with nothing left to report, a \<^verbatim>\<open>lock()\<close> on a held mutex in this one thread of control) is
  the outcome \<open>Blocks\<close>.

  Names are those of the source. \<^verbatim>\<open>__read\<close> and \<^verbatim>\<open>__write\<close> are \<open>internal_read\<close> and
  \<open>internal_write\<close>, the overloads carry the type of their target in their name, the
  parameter \<^verbatim>\<open>size\<close> is \<open>sz\<close>, and the trailing underscore of a member is a prime.
\<close>

subsection \<open>Machine types (Linux, LP64)\<close>

text \<open>
  \<^verbatim>\<open>size_t\<close> is an unsigned and \<^verbatim>\<open>ssize_t\<close> a signed 64-bit integer, \<^verbatim>\<open>int\<close> a signed 32-bit
  integer. All three are words; the signed ones are read with \<open>sint\<close> and compared with
  \<open><s\<close>. A conversion to a narrower type keeps the low bits (\<open>ucast\<close>), a conversion of
  a signed value to a wider type extends the sign (\<open>scast\<close>). Pointers are addresses of
  bytes; a function pointer is the address of its code.
\<close>

type_synonym size_t = "64 word"
type_synonym ssize_t = "64 word"
type_synonym c_int = "32 word"
type_synonym byte = "8 word"
type_synonym pointer = nat
type_synonym fun_pointer = nat

subsection \<open>Data\<close>

text \<open>
  Modelled from the spec: the class \<^verbatim>\<open>Buffer\<close> (an external collaborator whose source is not
  part of the core) is a fixed-capacity byte container of which only \<^verbatim>\<open>getBuffer()\<close>, the
  address of its bytes, and \<^verbatim>\<open>getSize()\<close>, its capacity, are used.
\<close>

record Buffer =
  getBuffer :: pointer
  getSize :: size_t

text \<open>A \<^verbatim>\<open>std::string\<close>: the address of its characters and their number.\<close>

record std_string =
  c_str :: pointer
  string_size :: size_t

text \<open>The tag of the staged asynchronous operation (\<^verbatim>\<open>async_operation_\<close>).\<close>

datatype async_operation = READ_BUFFER | READ_VOID | WRITE_BUFFER | WRITE_VOID | NONE

datatype exn = runtime_error string

datatype 'a outcome = Returns 'a | Throws exn | Blocks

text \<open>
  What an execution does to the world outside of the descriptor object is recorded, in
  order, as a trace of events: the operations on the mutex, every call of the underlying
  primitive with its arguments (target address, requested count) and its result, the
  diagnostics, the launches of the worker thread and the invocations of the completion
  handlers with their arguments.
\<close>

datatype event =
    Lock
  | Unlock
  | SysRead pointer size_t ssize_t
  | SysWrite pointer size_t ssize_t
  | Debug string
  | Start
  | BuffHandler fun_pointer Buffer size_t
  | VoidHandler fun_pointer pointer size_t

text \<open>
  The fields of \<^verbatim>\<open>PosixDescriptor::AsyncThread\<close>. The back-reference \<^verbatim>\<open>des_\<close> is implicit:
  there is one descriptor.
\<close>

record AsyncThread =
  async_operation' :: async_operation
  size' :: size_t
  buff_handler' :: fun_pointer
  buff_buffer' :: Buffer
  void_handler' :: fun_pointer
  void_buffer' :: pointer

text \<open>
  The state: the descriptor (its mutex \<^verbatim>\<open>lock_\<close>, held or not, and its runner) and its
  environment. The open file behind \<^verbatim>\<open>fd_\<close> is the list \<open>pending\<close> of the values that the
  coming calls of \<^verbatim>\<open>::read\<close> and \<^verbatim>\<open>::write\<close> return, the byte stream \<open>source\<close> of which
  \<open>consumed\<close> bytes have been read, and the byte stream \<open>sink\<close> to which \<open>emitted\<close> bytes
  have been written. \<open>memory\<close> is the process memory.
\<close>

record system =
  lock' :: bool
  async_thread' :: AsyncThread
  pending :: "ssize_t list"
  source :: "nat \<Rightarrow> byte"
  consumed :: nat
  sink :: "nat \<Rightarrow> byte"
  emitted :: nat
  memory :: "pointer \<Rightarrow> byte"
  trace :: "event list"

definition log_event :: "event \<Rightarrow> system \<Rightarrow> system" where
  "log_event ev s = s\<lparr>trace := trace s @ [ev]\<rparr>"

subsection \<open>The collaborators: mutex, diagnostics, thread start, system calls\<close>

text \<open>
  Modelled from the spec: the mutex class behind \<^verbatim>\<open>lock_\<close> is missing from the sources; the
  spec calls it an exclusive lock that a second taker must wait for. In one thread of control
  \<^verbatim>\<open>lock()\<close> on a held mutex never returns (\<open>None\<close>); \<^verbatim>\<open>unlock()\<close> releases it.
\<close>

definition lock :: "system \<Rightarrow> system option" where
  "lock s = (if lock' s then None else Some (log_event Lock (s\<lparr>lock' := True\<rparr>)))"

definition unlock :: "system \<Rightarrow> system" where
  "unlock s = log_event Unlock (s\<lparr>lock' := False\<rparr>)"

text \<open>
  Modelled from the spec: the macro \<^verbatim>\<open>DEBUG\<close> is missing from the sources; it emits a
  diagnostic that is advisory only and does not affect control flow.
\<close>

definition DEBUG :: "string \<Rightarrow> system \<Rightarrow> system" where
  "DEBUG msg s = log_event (Debug msg) s"

text \<open>
  Modelled from the spec: \<^verbatim>\<open>start()\<close> of the thread base class is missing from the sources;
  it launches the thread of control that will execute \<^verbatim>\<open>run()\<close>. The launch is recorded; the
  new thread is not run by the launching call.
\<close>

definition start :: "system \<Rightarrow> system" where
  "start s = log_event Start s"

text \<open>
  \<^verbatim>\<open>::read(fd_, buf, count)\<close>. With no result pending the call never returns (\<open>None\<close>).
  Otherwise it returns the next pending value \<open>ret\<close>; a positive \<open>ret\<close> stores the next
  \<open>ret\<close> bytes of the source at \<open>buf\<close>.
\<close>

definition store_input :: "pointer \<Rightarrow> nat \<Rightarrow> system \<Rightarrow> system" where
  "store_input buf n s =
     s\<lparr>memory := (\<lambda>a. if buf \<le> a \<and> a < buf + n
                        then source s (consumed s + (a - buf)) else memory s a),
       consumed := consumed s + n\<rparr>"

definition sys_read :: "pointer \<Rightarrow> size_t \<Rightarrow> system \<Rightarrow> ssize_t option \<times> system" where
  "sys_read buf count s =
     (case pending s of
        [] \<Rightarrow> (None, s)
      | ret # rest \<Rightarrow>
          (Some ret,
           log_event (SysRead buf count ret)
             ((if 0 <s ret then store_input buf (unat ret) s else s)\<lparr>pending := rest\<rparr>)))"

text \<open>
  \<^verbatim>\<open>::write(fd_, buf, count)\<close>, likewise; a positive \<open>ret\<close> appends the \<open>ret\<close> bytes at
  \<open>buf\<close> to the sink.
\<close>

definition load_output :: "pointer \<Rightarrow> nat \<Rightarrow> system \<Rightarrow> system" where
  "load_output buf n s =
     s\<lparr>sink := (\<lambda>i. if emitted s \<le> i \<and> i < emitted s + n
                      then memory s (buf + (i - emitted s)) else sink s i),
       emitted := emitted s + n\<rparr>"

definition sys_write :: "pointer \<Rightarrow> size_t \<Rightarrow> system \<Rightarrow> ssize_t option \<times> system" where
  "sys_write buf count s =
     (case pending s of
        [] \<Rightarrow> (None, s)
      | ret # rest \<Rightarrow>
          (Some ret,
           log_event (SysWrite buf count ret)
             ((if 0 <s ret then load_output buf (unat ret) s else s)\<lparr>pending := rest\<rparr>)))"

subsection \<open>The full-transfer loops\<close>

text \<open>
  \<^verbatim>\<open>PosixDescriptor::__read\<close>, lines 131-147. \<open>read_loop\<close> is the \<^verbatim>\<open>while\<close> loop with the
  local variable \<open>remaining\<close> as an argument, followed by the \<^verbatim>\<open>return (size-remaining)\<close>
  that converts a \<^verbatim>\<open>size_t\<close> to the \<^verbatim>\<open>int\<close> result. \<^verbatim>\<open>remaining -= ret\<close> is a subtraction of
  64-bit words.
\<close>

function read_loop ::
  "pointer \<Rightarrow> size_t \<Rightarrow> size_t \<Rightarrow> system \<Rightarrow> c_int outcome \<times> system" where
  "read_loop buffer sz remaining s =
     (if 0 < remaining then
        (case sys_read (buffer + unat (sz - remaining)) remaining s of
           (None, s1) \<Rightarrow> (Blocks, s1)
         | (Some ret, s1) \<Rightarrow>
             if ret = 0 then (Returns (ucast (sz - remaining)), s1)
             else if ret <s 0 then (Throws (runtime_error ''Read error''), s1)
             else read_loop buffer sz (remaining - ret) s1)
      else (Returns (ucast (sz - remaining)), s))"
  by pat_completeness auto
termination
  by (relation "measure (\<lambda>(buffer, sz, remaining, s). length (pending s))")
     (auto simp: sys_read_def log_event_def store_input_def split: list.splits if_splits)

definition internal_read :: "pointer \<Rightarrow> size_t \<Rightarrow> system \<Rightarrow> c_int outcome \<times> system" where
  "internal_read buffer sz s = read_loop buffer sz sz s"

text \<open>\<^verbatim>\<open>PosixDescriptor::__write\<close>, lines 203-219.\<close>

function write_loop ::
  "pointer \<Rightarrow> size_t \<Rightarrow> size_t \<Rightarrow> system \<Rightarrow> c_int outcome \<times> system" where
  "write_loop buffer sz remaining s =
     (if 0 < remaining then
        (case sys_write (buffer + unat (sz - remaining)) remaining s of
           (None, s1) \<Rightarrow> (Blocks, s1)
         | (Some ret, s1) \<Rightarrow>
             if ret = 0 then (Returns (ucast (sz - remaining)), s1)
             else if ret <s 0 then (Throws (runtime_error ''Write error''), s1)
             else write_loop buffer sz (remaining - ret) s1)
      else (Returns (ucast (sz - remaining)), s))"
  by pat_completeness auto
termination
  by (relation "measure (\<lambda>(buffer, sz, remaining, s). length (pending s))")
     (auto simp: sys_write_def log_event_def load_output_def split: list.splits if_splits)

definition internal_write :: "pointer \<Rightarrow> size_t \<Rightarrow> system \<Rightarrow> c_int outcome \<times> system" where
  "internal_write buffer sz s = write_loop buffer sz sz s"

subsection \<open>The synchronous operations\<close>

text \<open>\<^verbatim>\<open>int PosixDescriptor::read (Buffer* b, size_t size)\<close>, lines 159-169.\<close>

definition read_Buffer :: "Buffer \<Rightarrow> size_t \<Rightarrow> system \<Rightarrow> c_int outcome \<times> system" where
  "read_Buffer b sz s =
     (if getSize b = 0 \<or> getSize b < sz then
        (Returns (- 1), DEBUG ''Buffer size not enough!'' s)
      else
        (case lock s of
           None \<Rightarrow> (Blocks, s)
         | Some s1 \<Rightarrow>
             (case internal_read (getBuffer b) sz s1 of
                (Returns ret, s2) \<Rightarrow> (Returns ret, unlock s2)
              | (Throws e, s2) \<Rightarrow> (Throws e, s2)
              | (Blocks, s2) \<Rightarrow> (Blocks, s2))))"

text \<open>\<^verbatim>\<open>int PosixDescriptor::read (void* p, size_t size)\<close>, lines 180-186.\<close>

definition read_void :: "pointer \<Rightarrow> size_t \<Rightarrow> system \<Rightarrow> c_int outcome \<times> system" where
  "read_void p sz s =
     (case lock s of
        None \<Rightarrow> (Blocks, s)
      | Some s1 \<Rightarrow>
          (case internal_read p sz s1 of
             (Returns ret, s2) \<Rightarrow> (Returns ret, unlock s2)
           | (Throws e, s2) \<Rightarrow> (Throws e, s2)
           | (Blocks, s2) \<Rightarrow> (Blocks, s2)))"

text \<open>\<^verbatim>\<open>int PosixDescriptor::write (Buffer* b, size_t size)\<close>, lines 230-238.\<close>

definition write_Buffer :: "Buffer \<Rightarrow> size_t \<Rightarrow> system \<Rightarrow> c_int outcome \<times> system" where
  "write_Buffer b sz s =
     (if getSize b = 0 \<or> getSize b < sz then
        (Returns (- 1), DEBUG ''Buffer size not enough!'' s)
      else internal_write (getBuffer b) sz s)"

text \<open>\<^verbatim>\<open>int PosixDescriptor::write (const void* p, size_t size)\<close>, lines 248-251.\<close>

definition write_void :: "pointer \<Rightarrow> size_t \<Rightarrow> system \<Rightarrow> c_int outcome \<times> system" where
  "write_void p sz s = internal_write p sz s"

text \<open>\<^verbatim>\<open>int PosixDescriptor::write (const std::string& s)\<close>, lines 261-264.\<close>

definition write_string :: "std_string \<Rightarrow> system \<Rightarrow> c_int outcome \<times> system" where
  "write_string str s = internal_write (c_str str) (string_size str) s"

subsection \<open>The asynchronous runner\<close>

text \<open>
  \<^verbatim>\<open>AsyncThread::startAsyncOperation\<close> for a \<^verbatim>\<open>Buffer*\<close> target, lines 37-51, and for a
  \<^verbatim>\<open>void*\<close> target, lines 67-81.
\<close>

definition startAsyncOperation_Buffer ::
  "bool \<Rightarrow> fun_pointer \<Rightarrow> Buffer \<Rightarrow> size_t \<Rightarrow> system \<Rightarrow> system" where
  "startAsyncOperation_Buffer read_operation handler buff sz s =
     start (s\<lparr>async_thread' := (async_thread' s)
               \<lparr>size' := sz,
                buff_handler' := handler,
                buff_buffer' := buff,
                async_operation' := (if read_operation then READ_BUFFER else WRITE_BUFFER)\<rparr>\<rparr>)"

definition startAsyncOperation_void ::
  "bool \<Rightarrow> fun_pointer \<Rightarrow> pointer \<Rightarrow> size_t \<Rightarrow> system \<Rightarrow> system" where
  "startAsyncOperation_void read_operation handler buff sz s =
     start (s\<lparr>async_thread' := (async_thread' s)
               \<lparr>size' := sz,
                void_handler' := handler,
                void_buffer' := buff,
                async_operation' := (if read_operation then READ_VOID else WRITE_VOID)\<rparr>\<rparr>)"

text \<open>
  The code behind the function pointers: what the handler at an address does with its two
  arguments, as a function on the state. A handler may do anything, also stage and start the
  next asynchronous operation; it may throw or never return.
\<close>

type_synonym buff_code = "fun_pointer \<Rightarrow> Buffer \<Rightarrow> size_t \<Rightarrow> system \<Rightarrow> unit outcome \<times> system"
type_synonym void_code = "fun_pointer \<Rightarrow> pointer \<Rightarrow> size_t \<Rightarrow> system \<Rightarrow> unit outcome \<times> system"

text \<open>
  \<^verbatim>\<open>AsyncThread::run\<close>, lines 92-116, in its two parts. \<open>run_transfer\<close> is the dispatch on
  the staged operation, lines 96-107, with the \<^verbatim>\<open>int n\<close> as its result.
\<close>

definition run_transfer :: "system \<Rightarrow> c_int outcome \<times> system" where
  "run_transfer s =
     (let t = async_thread' s in
      if async_operation' t = READ_BUFFER then
        internal_read (getBuffer (buff_buffer' t)) (size' t) s
      else if async_operation' t = READ_VOID then
        internal_read (void_buffer' t) (size' t) s
      else if async_operation' t = WRITE_BUFFER then
        internal_write (getBuffer (buff_buffer' t)) (size' t) s
      else if async_operation' t = WRITE_VOID then
        internal_write (void_buffer' t) (size' t) s
      else
        (Throws (runtime_error ''Async error''),
         DEBUG ''Handler called without operation!'' s))"

text \<open>
  \<open>run_completion\<close> is the rest, lines 108-115: the unlock, the call of one handler with
  \<open>n\<close> converted to \<^verbatim>\<open>size_t\<close>, and the reset of the staged operation once the handler has
  returned.
\<close>

definition call_handler :: "buff_code \<Rightarrow> void_code \<Rightarrow> c_int \<Rightarrow> system \<Rightarrow> unit outcome \<times> system" where
  "call_handler hb hv n s =
     (let t = async_thread' s in
      if async_operation' t = READ_BUFFER \<or> async_operation' t = WRITE_BUFFER then
        hb (buff_handler' t) (buff_buffer' t) (scast n)
          (log_event (BuffHandler (buff_handler' t) (buff_buffer' t) (scast n)) s)
      else
        hv (void_handler' t) (void_buffer' t) (scast n)
          (log_event (VoidHandler (void_handler' t) (void_buffer' t) (scast n)) s))"

definition run_completion :: "buff_code \<Rightarrow> void_code \<Rightarrow> c_int \<Rightarrow> system \<Rightarrow> unit outcome \<times> system" where
  "run_completion hb hv n s =
     (case call_handler hb hv n (unlock s) of
        (Returns u, s1) \<Rightarrow>
          (Returns (), s1\<lparr>async_thread' := (async_thread' s1)\<lparr>async_operation' := NONE\<rparr>\<rparr>)
      | (Throws e, s1) \<Rightarrow> (Throws e, s1)
      | (Blocks, s1) \<Rightarrow> (Blocks, s1))"

definition run :: "buff_code \<Rightarrow> void_code \<Rightarrow> system \<Rightarrow> unit outcome \<times> system" where
  "run hb hv s =
     (case run_transfer s of
        (Returns n, s1) \<Rightarrow> run_completion hb hv n s1
      | (Throws e, s1) \<Rightarrow> (Throws e, s1)
      | (Blocks, s1) \<Rightarrow> (Blocks, s1))"

subsection \<open>Vocabulary of the properties\<close>

text \<open>
  The events that an execution adds to the trace, and the calls of the underlying primitive
  among them that reported a negative result.
\<close>

definition new_events :: "system \<Rightarrow> system \<Rightarrow> event list" where
  "new_events s s1 = drop (length (trace s)) (trace s1)"

fun failed_call :: "event \<Rightarrow> bool" where
  "failed_call (SysRead p c r) = (r <s 0)"
| "failed_call (SysWrite p c r) = (r <s 0)"
| "failed_call ev = False"

text \<open>
  \<open>delivers rs remaining\<close>: the results \<open>rs\<close> of the coming calls are positive byte counts,
  each at most the count still missing, until \<open>remaining\<close> bytes in total have been
  delivered.
\<close>

fun delivers :: "ssize_t list \<Rightarrow> size_t \<Rightarrow> bool" where
  "delivers [] remaining = (remaining = 0)"
| "delivers (r # rs) remaining =
     (remaining = 0 \<or> (0 <s r \<and> r \<le> remaining \<and> delivers rs (remaining - r)))"

text \<open>
  \<open>within_request rs remaining\<close>: every result that reports a transfer is at most the count
  that was asked for. The results after a zero or a negative one are never looked at.
\<close>

fun within_request :: "ssize_t list \<Rightarrow> size_t \<Rightarrow> bool" where
  "within_request [] remaining = True"
| "within_request (r # rs) remaining =
     (remaining = 0 \<or> r = 0 \<or> r <s 0 \<or> (r \<le> remaining \<and> within_request rs (remaining - r)))"

text \<open>
  The words of the specification of the runner: the two shapes of a staged operation, the
  target that was staged, the transfer loop and the handler that match the staged operation,
  and the record of that handler's invocation with a byte count \<open>k\<close>.
\<close>

definition buffer_mode :: "async_operation \<Rightarrow> bool" where
  "buffer_mode m = (m = READ_BUFFER \<or> m = WRITE_BUFFER)"

definition read_mode :: "async_operation \<Rightarrow> bool" where
  "read_mode m = (m = READ_BUFFER \<or> m = READ_VOID)"

definition staged_target :: "AsyncThread \<Rightarrow> pointer" where
  "staged_target t =
     (if buffer_mode (async_operation' t) then getBuffer (buff_buffer' t) else void_buffer' t)"

definition matching_loop :: "AsyncThread \<Rightarrow> system \<Rightarrow> c_int outcome \<times> system" where
  "matching_loop t =
     (if read_mode (async_operation' t) then internal_read else internal_write)
       (staged_target t) (size' t)"

definition matching_handler ::
  "buff_code \<Rightarrow> void_code \<Rightarrow> AsyncThread \<Rightarrow> size_t \<Rightarrow> system \<Rightarrow> unit outcome \<times> system" where
  "matching_handler hb hv t k =
     (if buffer_mode (async_operation' t)
      then hb (buff_handler' t) (buff_buffer' t) k
      else hv (void_handler' t) (void_buffer' t) k)"

definition handler_event :: "AsyncThread \<Rightarrow> size_t \<Rightarrow> event" where
  "handler_event t k =
     (if buffer_mode (async_operation' t)
      then BuffHandler (buff_handler' t) (buff_buffer' t) k
      else VoidHandler (void_handler' t) (void_buffer' t) k)"

text \<open>
  The number of bytes that the staged operation has transferred between two states: bytes
  taken from the source by a read, bytes given to the sink by a write.
\<close>

definition transferred :: "AsyncThread \<Rightarrow> system \<Rightarrow> system \<Rightarrow> nat" where
  "transferred t s s1 =
     (if read_mode (async_operation' t) then consumed s1 - consumed s
      else emitted s1 - emitted s)"

fun handler_call :: "event \<Rightarrow> bool" where
  "handler_call (BuffHandler h b n) = True"
| "handler_call (VoidHandler h p n) = True"
| "handler_call ev = False"

subsection \<open>Concrete states\<close>

text \<open>
  A descriptor after construction: mutex free, no operation staged, nothing read or written
  yet, with the given results pending. The source holds the byte \<open>i mod 256\<close> at position
  \<open>i\<close>. \<open>returning_buff_code\<close> and \<open>returning_void_code\<close> are handlers that return at once.
\<close>

definition idle_thread :: AsyncThread where
  "idle_thread =
     \<lparr>async_operation' = NONE, size' = 0, buff_handler' = 0,
      buff_buffer' = \<lparr>getBuffer = 0, getSize = 0\<rparr>, void_handler' = 0, void_buffer' = 0\<rparr>"

definition fresh_system :: "ssize_t list \<Rightarrow> system" where
  "fresh_system rs =
     \<lparr>lock' = False, async_thread' = idle_thread, pending = rs,
      source = (\<lambda>i. of_nat i), consumed = 0, sink = (\<lambda>i. 0), emitted = 0,
      memory = (\<lambda>a. 0), trace = []\<rparr>"

definition returning_buff_code :: buff_code where
  "returning_buff_code h b n s = (Returns (), s)"

definition returning_void_code :: void_code where
  "returning_void_code h p n s = (Returns (), s)"

text \<open>
  A handler that starts the next asynchronous operation from inside the callback: a read of
  one byte into the same target, with itself as the handler.
\<close>

definition restarting_void_code :: void_code where
  "restarting_void_code h p n s = (Returns (), startAsyncOperation_void True h p 1 s)"

section \<open>Properties\<close>

declare read_loop.simps [simp del] write_loop.simps [simp del]

subsection \<open>Invalid arguments of the managed-buffer overloads\<close>

text \<open>
  C3. A \<^verbatim>\<open>read(Buffer*, size)\<close> or \<^verbatim>\<open>write(Buffer*, size)\<close> whose buffer has capacity zero, or
  whose size exceeds the capacity, returns the sentinel \<open>-1\<close> and does not throw. The state
  it leaves is the state it found with one diagnostic added to the trace: the underlying
  primitive has not been called (no result is consumed, no call is recorded), and the mutex,
  the runner, the memory and the file are unchanged.
\<close>

theorem invalid_buffer_rejected:
  assumes "getSize b = 0 \<or> getSize b < sz"
  shows "read_Buffer b sz s =
           (Returns (- 1), s\<lparr>trace := trace s @ [Debug ''Buffer size not enough!'']\<rparr>) \<and>
         write_Buffer b sz s =
           (Returns (- 1), s\<lparr>trace := trace s @ [Debug ''Buffer size not enough!'']\<rparr>)"
  using assms by (auto simp: read_Buffer_def write_Buffer_def DEBUG_def log_event_def)

text \<open>A size of 5 for a buffer of capacity 4, and a buffer of capacity 0.\<close>

theorem invalid_buffer_rejected_witness:
  "getSize \<lparr>getBuffer = 16, getSize = 4\<rparr> < (5 :: size_t) \<and>
   read_Buffer \<lparr>getBuffer = 16, getSize = 4\<rparr> 5 (fresh_system [5]) =
     (Returns (- 1), (fresh_system [5])\<lparr>trace := [Debug ''Buffer size not enough!'']\<rparr>) \<and>
   write_Buffer \<lparr>getBuffer = 16, getSize = 4\<rparr> 5 (fresh_system [5]) =
     (Returns (- 1), (fresh_system [5])\<lparr>trace := [Debug ''Buffer size not enough!'']\<rparr>) \<and>
   getSize \<lparr>getBuffer = 16, getSize = 0\<rparr> = (0 :: size_t) \<and>
   read_Buffer \<lparr>getBuffer = 16, getSize = 0\<rparr> 0 (fresh_system [5]) =
     (Returns (- 1), (fresh_system [5])\<lparr>trace := [Debug ''Buffer size not enough!'']\<rparr>)"
  using invalid_buffer_rejected [of "\<lparr>getBuffer = 16, getSize = 4\<rparr>" 5 "fresh_system [5]"]
        invalid_buffer_rejected [of "\<lparr>getBuffer = 16, getSize = 0\<rparr>" 0 "fresh_system [5]"]
  by (simp add: fresh_system_def)

subsection \<open>The runner with no operation staged\<close>

text \<open>
  C8. When \<^verbatim>\<open>run()\<close> executes while the staged operation is \<open>NONE\<close>, it throws the
  runtime error \<^verbatim>\<open>"Async error"\<close>. The state it leaves is the state it found with one
  diagnostic added to the trace: no transfer has been performed and no handler has been
  invoked, whatever the handlers are.
\<close>

theorem run_without_operation:
  assumes "async_operation' (async_thread' s) = NONE"
  shows "run hb hv s =
           (Throws (runtime_error ''Async error''),
            s\<lparr>trace := trace s @ [Debug ''Handler called without operation!'']\<rparr>)"
  using assms by (simp add: run_def run_transfer_def DEBUG_def log_event_def)

text \<open>A descriptor after construction, with handlers that return at once.\<close>

theorem run_without_operation_witness:
  "async_operation' (async_thread' (fresh_system [4])) = NONE \<and>
   run returning_buff_code returning_void_code (fresh_system [4]) =
     (Throws (runtime_error ''Async error''),
      (fresh_system [4])\<lparr>trace := [Debug ''Handler called without operation!'']\<rparr>)"
  using run_without_operation [of "fresh_system [4]" returning_buff_code returning_void_code]
  by (simp add: fresh_system_def idle_thread_def)

subsection \<open>Unfolding the loops\<close>

lemma positive_result: "0 <s (r :: ssize_t) \<Longrightarrow> r \<noteq> 0 \<and> \<not> r <s 0"
  by (auto simp: word_sless_alt)

lemma result_cases:
  obtains "(r :: ssize_t) = 0" | "r <s 0" | "0 <s r"
  by (auto simp: word_sless_alt) (metis linorder_neqE_linordered_idom signed_0 signed_word_eqI)

lemma read_loop_done:
  "remaining = 0 \<Longrightarrow> read_loop buffer sz remaining s = (Returns (ucast sz), s)"
  by (simp add: read_loop.simps)

lemma read_loop_blocks:
  "0 < remaining \<Longrightarrow> pending s = [] \<Longrightarrow> read_loop buffer sz remaining s = (Blocks, s)"
  by (simp add: read_loop.simps [of buffer sz remaining s] sys_read_def)

lemma read_loop_eof:
  "0 < remaining \<Longrightarrow> pending s = 0 # rs \<Longrightarrow>
   read_loop buffer sz remaining s =
     (Returns (ucast (sz - remaining)),
      log_event (SysRead (buffer + unat (sz - remaining)) remaining 0) (s\<lparr>pending := rs\<rparr>))"
  by (simp add: read_loop.simps [of buffer sz remaining s] sys_read_def)

lemma read_loop_error:
  "0 < remaining \<Longrightarrow> pending s = r # rs \<Longrightarrow> r <s 0 \<Longrightarrow>
   read_loop buffer sz remaining s =
     (Throws (runtime_error ''Read error''),
      log_event (SysRead (buffer + unat (sz - remaining)) remaining r) (s\<lparr>pending := rs\<rparr>))"
  by (auto simp: read_loop.simps [of buffer sz remaining s] sys_read_def word_sless_alt)

lemma read_loop_step:
  "0 < remaining \<Longrightarrow> pending s = r # rs \<Longrightarrow> 0 <s r \<Longrightarrow>
   read_loop buffer sz remaining s =
     read_loop buffer sz (remaining - r)
       (log_event (SysRead (buffer + unat (sz - remaining)) remaining r)
          ((store_input (buffer + unat (sz - remaining)) (unat r) s)\<lparr>pending := rs\<rparr>))"
  by (auto simp: read_loop.simps [of buffer sz remaining s] sys_read_def dest: positive_result)

lemma write_loop_done:
  "remaining = 0 \<Longrightarrow> write_loop buffer sz remaining s = (Returns (ucast sz), s)"
  by (simp add: write_loop.simps)

lemma write_loop_blocks:
  "0 < remaining \<Longrightarrow> pending s = [] \<Longrightarrow> write_loop buffer sz remaining s = (Blocks, s)"
  by (simp add: write_loop.simps [of buffer sz remaining s] sys_write_def)

lemma write_loop_eof:
  "0 < remaining \<Longrightarrow> pending s = 0 # rs \<Longrightarrow>
   write_loop buffer sz remaining s =
     (Returns (ucast (sz - remaining)),
      log_event (SysWrite (buffer + unat (sz - remaining)) remaining 0) (s\<lparr>pending := rs\<rparr>))"
  by (simp add: write_loop.simps [of buffer sz remaining s] sys_write_def)

lemma write_loop_error:
  "0 < remaining \<Longrightarrow> pending s = r # rs \<Longrightarrow> r <s 0 \<Longrightarrow>
   write_loop buffer sz remaining s =
     (Throws (runtime_error ''Write error''),
      log_event (SysWrite (buffer + unat (sz - remaining)) remaining r) (s\<lparr>pending := rs\<rparr>))"
  by (auto simp: write_loop.simps [of buffer sz remaining s] sys_write_def word_sless_alt)

lemma write_loop_step:
  "0 < remaining \<Longrightarrow> pending s = r # rs \<Longrightarrow> 0 <s r \<Longrightarrow>
   write_loop buffer sz remaining s =
     write_loop buffer sz (remaining - r)
       (log_event (SysWrite (buffer + unat (sz - remaining)) remaining r)
          ((load_output (buffer + unat (sz - remaining)) (unat r) s)\<lparr>pending := rs\<rparr>))"
  by (auto simp: write_loop.simps [of buffer sz remaining s] sys_write_def dest: positive_result)

subsection \<open>What the loops leave alone, and what they record\<close>

lemma read_loop_frame:
  "read_loop buffer sz remaining s = (out, s1) \<Longrightarrow>
     lock' s1 = lock' s \<and> async_thread' s1 = async_thread' s \<and>
     (\<exists>evs. trace s1 = trace s @ evs \<and>
        (\<forall>ev \<in> set evs. \<exists>p c r. ev = SysRead p c r) \<and>
        (out \<noteq> Throws (runtime_error ''Read error'') \<longrightarrow> (\<forall>ev \<in> set evs. \<not> failed_call ev)) \<and>
        (out = Throws (runtime_error ''Read error'') \<longrightarrow> evs \<noteq> [] \<and> failed_call (last evs)))"
proof (induction "pending s" arbitrary: s remaining)
  case Nil
  then show ?case
    by (cases "remaining = 0") (auto simp: read_loop_done read_loop_blocks word_greater_zero_iff)
next
  case (Cons r rs)
  show ?case
  proof (cases "remaining = 0")
    case True
    with Cons.prems show ?thesis by (auto simp: read_loop_done)
  next
    case False
    then have pos: "0 < remaining" by (simp add: word_greater_zero_iff)
    note p = Cons.hyps(2) [symmetric]
    show ?thesis
    proof (cases r rule: result_cases)
      case 1
      with Cons.prems pos p show ?thesis
        by (auto simp: read_loop_eof log_event_def)
    next
      case 2
      with Cons.prems pos p show ?thesis
        by (auto simp: read_loop_error log_event_def)
    next
      case 3
      let ?s2 = "log_event (SysRead (buffer + unat (sz - remaining)) remaining r)
          ((store_input (buffer + unat (sz - remaining)) (unat r) s)\<lparr>pending := rs\<rparr>)"
      have rl: "read_loop buffer sz (remaining - r) ?s2 = (out, s1)"
        using Cons.prems read_loop_step [OF pos p 3] by simp
      have "rs = pending ?s2" by (simp add: log_event_def)
      from Cons.hyps(1) [OF this rl] 3 show ?thesis
        by (auto simp: log_event_def store_input_def dest: positive_result)
    qed
  qed
qed

lemma write_loop_frame:
  "write_loop buffer sz remaining s = (out, s1) \<Longrightarrow>
     lock' s1 = lock' s \<and> async_thread' s1 = async_thread' s \<and>
     (\<exists>evs. trace s1 = trace s @ evs \<and>
        (\<forall>ev \<in> set evs. \<exists>p c r. ev = SysWrite p c r) \<and>
        (out \<noteq> Throws (runtime_error ''Write error'') \<longrightarrow> (\<forall>ev \<in> set evs. \<not> failed_call ev)) \<and>
        (out = Throws (runtime_error ''Write error'') \<longrightarrow> evs \<noteq> [] \<and> failed_call (last evs)))"
proof (induction "pending s" arbitrary: s remaining)
  case Nil
  then show ?case
    by (cases "remaining = 0") (auto simp: write_loop_done write_loop_blocks word_greater_zero_iff)
next
  case (Cons r rs)
  show ?case
  proof (cases "remaining = 0")
    case True
    with Cons.prems show ?thesis by (auto simp: write_loop_done)
  next
    case False
    then have pos: "0 < remaining" by (simp add: word_greater_zero_iff)
    note p = Cons.hyps(2) [symmetric]
    show ?thesis
    proof (cases r rule: result_cases)
      case 1
      with Cons.prems pos p show ?thesis
        by (auto simp: write_loop_eof log_event_def)
    next
      case 2
      with Cons.prems pos p show ?thesis
        by (auto simp: write_loop_error log_event_def)
    next
      case 3
      let ?s2 = "log_event (SysWrite (buffer + unat (sz - remaining)) remaining r)
          ((load_output (buffer + unat (sz - remaining)) (unat r) s)\<lparr>pending := rs\<rparr>)"
      have rl: "write_loop buffer sz (remaining - r) ?s2 = (out, s1)"
        using Cons.prems write_loop_step [OF pos p 3] by simp
      have "rs = pending ?s2" by (simp add: log_event_def)
      from Cons.hyps(1) [OF this rl] 3 show ?thesis
        by (auto simp: log_event_def load_output_def dest: positive_result)
    qed
  qed
qed

subsection \<open>Negative results\<close>

lemma failure_aborts:
  assumes "trace s1 = trace s @ evs"
    and "out \<noteq> Throws (runtime_error msg) \<longrightarrow> (\<forall>ev \<in> set evs. \<not> failed_call ev)"
    and "out = Throws (runtime_error msg) \<longrightarrow> evs \<noteq> [] \<and> failed_call (last evs)"
    and "\<exists>ev \<in> set (new_events s s1). failed_call ev"
  shows "out = Throws (runtime_error msg) \<and> failed_call (last (trace s1))"
  using assms by (auto simp: new_events_def)

lemma internal_read_events:
  obtains evs where "trace (snd (internal_read p sz s)) = trace s @ evs"
    and "fst (internal_read p sz s) \<noteq> Throws (runtime_error ''Read error'') \<longrightarrow>
           (\<forall>ev \<in> set evs. \<not> failed_call ev)"
    and "fst (internal_read p sz s) = Throws (runtime_error ''Read error'') \<longrightarrow>
           evs \<noteq> [] \<and> failed_call (last evs)"
  using read_loop_frame [of p sz sz s "fst (internal_read p sz s)" "snd (internal_read p sz s)"]
  by (auto simp: internal_read_def)

lemma internal_write_events:
  obtains evs where "trace (snd (internal_write p sz s)) = trace s @ evs"
    and "fst (internal_write p sz s) \<noteq> Throws (runtime_error ''Write error'') \<longrightarrow>
           (\<forall>ev \<in> set evs. \<not> failed_call ev)"
    and "fst (internal_write p sz s) = Throws (runtime_error ''Write error'') \<longrightarrow>
           evs \<noteq> [] \<and> failed_call (last evs)"
  using write_loop_frame [of p sz sz s "fst (internal_write p sz s)" "snd (internal_write p sz s)"]
  by (auto simp: internal_write_def)

lemma read_void_events:
  obtains evs where "trace (snd (read_void p sz s)) = trace s @ evs"
    and "fst (read_void p sz s) \<noteq> Throws (runtime_error ''Read error'') \<longrightarrow>
           (\<forall>ev \<in> set evs. \<not> failed_call ev)"
    and "fst (read_void p sz s) = Throws (runtime_error ''Read error'') \<longrightarrow>
           evs \<noteq> [] \<and> failed_call (last evs)"
proof (cases "lock' s")
  case True
  then have "read_void p sz s = (Blocks, s)" by (simp add: read_void_def lock_def)
  then show ?thesis using that [of "[]"] by simp
next
  case False
  let ?s1 = "log_event Lock (s\<lparr>lock' := True\<rparr>)"
  obtain out s2 where ir: "internal_read p sz ?s1 = (out, s2)"
    by (cases "internal_read p sz ?s1")
  obtain evs where evs: "trace s2 = trace ?s1 @ evs"
    "out \<noteq> Throws (runtime_error ''Read error'') \<longrightarrow> (\<forall>ev \<in> set evs. \<not> failed_call ev)"
    "out = Throws (runtime_error ''Read error'') \<longrightarrow> evs \<noteq> [] \<and> failed_call (last evs)"
    using internal_read_events [of p sz ?s1] ir by auto
  show ?thesis
  proof (cases out)
    case (Returns n)
    with False ir evs that [of "Lock # evs @ [Unlock]"] show ?thesis
      by (simp add: read_void_def lock_def unlock_def log_event_def)
  next
    case (Throws e)
    with False ir evs that [of "Lock # evs"] show ?thesis
      by (simp add: read_void_def lock_def log_event_def)
  next
    case Blocks
    with False ir evs that [of "Lock # evs"] show ?thesis
      by (simp add: read_void_def lock_def log_event_def)
  qed
qed

lemma read_Buffer_events:
  obtains evs where "trace (snd (read_Buffer b sz s)) = trace s @ evs"
    and "fst (read_Buffer b sz s) \<noteq> Throws (runtime_error ''Read error'') \<longrightarrow>
           (\<forall>ev \<in> set evs. \<not> failed_call ev)"
    and "fst (read_Buffer b sz s) = Throws (runtime_error ''Read error'') \<longrightarrow>
           evs \<noteq> [] \<and> failed_call (last evs)"
proof (cases "getSize b = 0 \<or> getSize b < sz")
  case True
  then have "read_Buffer b sz s = (Returns (- 1), log_event (Debug ''Buffer size not enough!'') s)"
    by (simp add: read_Buffer_def DEBUG_def)
  then show ?thesis using that [of "[Debug ''Buffer size not enough!'']"]
    by (simp add: log_event_def)
next
  case False
  then have "read_Buffer b sz s = read_void (getBuffer b) sz s"
    by (simp add: read_Buffer_def read_void_def)
  then show ?thesis using read_void_events [of "getBuffer b" sz s] that by metis
qed

lemma write_Buffer_events:
  obtains evs where "trace (snd (write_Buffer b sz s)) = trace s @ evs"
    and "fst (write_Buffer b sz s) \<noteq> Throws (runtime_error ''Write error'') \<longrightarrow>
           (\<forall>ev \<in> set evs. \<not> failed_call ev)"
    and "fst (write_Buffer b sz s) = Throws (runtime_error ''Write error'') \<longrightarrow>
           evs \<noteq> [] \<and> failed_call (last evs)"
proof (cases "getSize b = 0 \<or> getSize b < sz")
  case True
  then have "write_Buffer b sz s = (Returns (- 1), log_event (Debug ''Buffer size not enough!'') s)"
    by (simp add: write_Buffer_def DEBUG_def)
  then show ?thesis using that [of "[Debug ''Buffer size not enough!'']"]
    by (simp add: log_event_def)
next
  case False
  then have "write_Buffer b sz s = internal_write (getBuffer b) sz s"
    by (simp add: write_Buffer_def)
  then show ?thesis using internal_write_events [of "getBuffer b" sz s] that by metis
qed

text \<open>
  C5. In every execution of \<^verbatim>\<open>__read\<close> or \<^verbatim>\<open>__write\<close>, alone or called from one of the five
  synchronous operations, in which a call of the underlying primitive returns a negative
  result, the outcome is the thrown \<^verbatim>\<open>runtime_error\<close> (\<^verbatim>\<open>"Read error"\<close>, \<^verbatim>\<open>"Write error"\<close>),
  not a returned byte count, and the failed call is the last event of the execution: the loop
  stops at it, and no caller catches the exception.
\<close>

theorem negative_result_throws:
  "(rd \<in> {internal_read p sz, read_void p sz, read_Buffer b sz} \<and>
    (\<exists>ev \<in> set (new_events s (snd (rd s))). failed_call ev) \<longrightarrow>
      fst (rd s) = Throws (runtime_error ''Read error'') \<and> failed_call (last (trace (snd (rd s))))) \<and>
   (wr \<in> {internal_write p sz, write_void p sz, write_Buffer b sz, write_string str} \<and>
    (\<exists>ev \<in> set (new_events s (snd (wr s))). failed_call ev) \<longrightarrow>
      fst (wr s) = Throws (runtime_error ''Write error'') \<and> failed_call (last (trace (snd (wr s)))))"
proof (rule conjI; rule impI; elim conjE)
  assume rd: "rd \<in> {internal_read p sz, read_void p sz, read_Buffer b sz}"
    and ev: "\<exists>ev \<in> set (new_events s (snd (rd s))). failed_call ev"
  obtain evs where "trace (snd (rd s)) = trace s @ evs"
    and "fst (rd s) \<noteq> Throws (runtime_error ''Read error'') \<longrightarrow> (\<forall>ev \<in> set evs. \<not> failed_call ev)"
    and "fst (rd s) = Throws (runtime_error ''Read error'') \<longrightarrow> evs \<noteq> [] \<and> failed_call (last evs)"
    using rd internal_read_events [of p sz s] read_void_events [of p sz s]
      read_Buffer_events [of b sz s] by blast
  from failure_aborts [OF this ev]
  show "fst (rd s) = Throws (runtime_error ''Read error'') \<and> failed_call (last (trace (snd (rd s))))" .
next
  assume wr: "wr \<in> {internal_write p sz, write_void p sz, write_Buffer b sz, write_string str}"
    and ev: "\<exists>ev \<in> set (new_events s (snd (wr s))). failed_call ev"
  have ws: "write_void p sz = internal_write p sz"
    "write_string str = internal_write (c_str str) (string_size str)"
    by (simp_all add: write_void_def write_string_def fun_eq_iff)
  obtain evs where "trace (snd (wr s)) = trace s @ evs"
    and "fst (wr s) \<noteq> Throws (runtime_error ''Write error'') \<longrightarrow> (\<forall>ev \<in> set evs. \<not> failed_call ev)"
    and "fst (wr s) = Throws (runtime_error ''Write error'') \<longrightarrow> evs \<noteq> [] \<and> failed_call (last evs)"
    using wr internal_write_events [of p sz s]
      internal_write_events [of "c_str str" "string_size str" s]
      write_Buffer_events [of b sz s] unfolding ws by blast
  from failure_aborts [OF this ev]
  show "fst (wr s) = Throws (runtime_error ''Write error'') \<and> failed_call (last (trace (snd (wr s))))" .
qed

text \<open>The equations that evaluate the model on a concrete state.\<close>

lemmas model_defs =
  internal_read_def internal_write_def read_loop.simps write_loop.simps
  sys_read_def sys_write_def store_input_def load_output_def log_event_def
  lock_def unlock_def DEBUG_def start_def
  read_Buffer_def read_void_def write_Buffer_def write_void_def write_string_def
  run_def run_transfer_def run_completion_def call_handler_def
  startAsyncOperation_Buffer_def startAsyncOperation_void_def
  fresh_system_def idle_thread_def new_events_def word_sless_alt

text \<open>
  A transfer of 4 bytes whose first call transfers 2 bytes and whose second call fails, as a
  synchronous read and as a synchronous write.
\<close>

theorem negative_result_throws_witness:
  "read_void 0 4 \<in> {internal_read 0 4, read_void 0 4, read_Buffer \<lparr>getBuffer = 0, getSize = 8\<rparr> 4} \<and>
   (\<exists>ev \<in> set (new_events (fresh_system [2, - 1]) (snd (read_void 0 4 (fresh_system [2, - 1])))).
      failed_call ev) \<and>
   fst (read_void 0 4 (fresh_system [2, - 1])) = Throws (runtime_error ''Read error'') \<and>
   trace (snd (read_void 0 4 (fresh_system [2, - 1]))) = [Lock, SysRead 0 4 2, SysRead 2 2 (- 1)] \<and>
   write_void 0 4 \<in> {internal_write 0 4, write_void 0 4,
      write_Buffer \<lparr>getBuffer = 0, getSize = 8\<rparr> 4, write_string \<lparr>c_str = 0, string_size = 4\<rparr>} \<and>
   (\<exists>ev \<in> set (new_events (fresh_system [2, - 1]) (snd (write_void 0 4 (fresh_system [2, - 1])))).
      failed_call ev) \<and>
   fst (write_void 0 4 (fresh_system [2, - 1])) = Throws (runtime_error ''Write error'') \<and>
   trace (snd (write_void 0 4 (fresh_system [2, - 1]))) = [SysWrite 0 4 2, SysWrite 2 2 (- 1)]"
  using negative_result_throws [of "read_void 0 4" 0 4 "\<lparr>getBuffer = 0, getSize = 8\<rparr>"
      "fresh_system [2, - 1]" "write_void 0 4" "\<lparr>c_str = 0, string_size = 4\<rparr>"]
  by (simp add: model_defs)

subsection \<open>Arithmetic of the loop counter and of the result\<close>

lemma remaining_sub:
  fixes r remaining sz :: size_t
  assumes "r \<le> remaining" "remaining \<le> sz"
  shows "remaining - r \<le> sz"
    and "unat (remaining - r) = unat remaining - unat r"
    and "unat (sz - (remaining - r)) = unat (sz - remaining) + unat r"
    and "unat (sz - remaining) + unat remaining = unat sz"
  using assms by unat_arith+

lemma narrow_exact:
  fixes k :: size_t
  assumes "k < 2 ^ 31"
  shows "sint (ucast k :: c_int) = int (unat k)"
proof -
  from assms have "uint k < 2 ^ 31" by (simp add: word_less_def)
  moreover have "- (2 ^ 31) \<le> uint k"
    by (rule order_trans [OF _ uint_ge_0]) simp
  ultimately have "signed_take_bit (31::nat) (uint k) = uint k"
    by (simp only: signed_take_bit_int_eq_self_iff)
  moreover have "sint (ucast k :: c_int) = signed_take_bit (31::nat) (uint k)"
    by (subst ucast_eq, subst sint_sbintrunc') simp
  ultimately show ?thesis by simp
qed

subsection \<open>A read that is fully served\<close>

lemma read_loop_fills:
  "delivers (pending s) remaining \<Longrightarrow> remaining \<le> sz \<Longrightarrow>
   \<exists>s1. read_loop buffer sz remaining s = (Returns (ucast sz), s1) \<and>
        consumed s1 = consumed s + unat remaining \<and>
        (\<forall>a. memory s1 a =
           (if buffer + unat (sz - remaining) \<le> a \<and> a < buffer + unat sz
            then source s (consumed s + (a - (buffer + unat (sz - remaining))))
            else memory s a))"
proof (induction "pending s" arbitrary: s remaining)
  case Nil
  from Nil(2) Nil(1) [symmetric] have "remaining = 0" by simp
  then show ?case by (auto simp: read_loop_done)
next
  case (Cons r rs)
  show ?case
  proof (cases "remaining = 0")
    case True
    then show ?thesis by (auto simp: read_loop_done)
  next
    case False
    then have pos: "0 < remaining" by (simp add: word_greater_zero_iff)
    note p = Cons.hyps(2) [symmetric]
    from Cons.prems(1) False p
    have r: "0 <s r" "r \<le> remaining" "delivers rs (remaining - r)" by auto
    let ?off = "unat (sz - remaining)"
    let ?s2 = "log_event (SysRead (buffer + ?off) remaining r)
          ((store_input (buffer + ?off) (unat r) s)\<lparr>pending := rs\<rparr>)"
    note ar = remaining_sub [OF r(2) Cons.prems(2)]
    have ps2: "rs = pending ?s2" by (simp add: log_event_def)
    have "delivers (pending ?s2) (remaining - r)" using r(3) by (simp add: log_event_def)
    from Cons.hyps(1) [OF ps2 this ar(1)]
    obtain s1 where s1: "read_loop buffer sz (remaining - r) ?s2 = (Returns (ucast sz), s1)"
      "consumed s1 = consumed ?s2 + unat (remaining - r)"
      "\<And>a. memory s1 a =
           (if buffer + unat (sz - (remaining - r)) \<le> a \<and> a < buffer + unat sz
            then source ?s2 (consumed ?s2 + (a - (buffer + unat (sz - (remaining - r)))))
            else memory ?s2 a)"
      by blast
    have le: "unat r \<le> unat remaining" using r(2) by (simp add: word_le_nat_alt)
    have c2: "consumed ?s2 = consumed s + unat r" "source ?s2 = source s"
      by (simp_all add: log_event_def store_input_def)
    have m2: "\<And>a. memory ?s2 a = (if buffer + ?off \<le> a \<and> a < buffer + ?off + unat r
                        then source s (consumed s + (a - (buffer + ?off))) else memory s a)"
      by (simp add: log_event_def store_input_def)
    have "read_loop buffer sz remaining s = (Returns (ucast sz), s1)"
      using read_loop_step [OF pos p r(1)] s1(1) by simp
    moreover have "consumed s1 = consumed s + unat remaining"
      using s1(2) c2 ar(2) le by simp
    moreover have "\<forall>a. memory s1 a =
           (if buffer + ?off \<le> a \<and> a < buffer + unat sz
            then source s (consumed s + (a - (buffer + ?off)))
            else memory s a)"
    proof
      fix a
      show "memory s1 a =
           (if buffer + ?off \<le> a \<and> a < buffer + unat sz
            then source s (consumed s + (a - (buffer + ?off)))
            else memory s a)"
        using s1(3) [of a] m2 [of a] c2 ar(3) ar(4) le
        by (auto intro!: arg_cong [where f = "source s"])
    qed
    ultimately show ?thesis by blast
  qed
qed

lemma internal_read_fills:
  assumes "delivers (pending s) sz"
  shows "\<exists>s1. internal_read p sz s = (Returns (ucast sz), s1) \<and>
           lock' s1 = lock' s \<and> consumed s1 = consumed s + unat sz \<and>
           (\<forall>i < unat sz. memory s1 (p + i) = source s (consumed s + i))"
proof -
  from read_loop_fills [OF assms order_refl, of p]
  obtain s1 where s1: "read_loop p sz sz s = (Returns (ucast sz), s1)"
    "consumed s1 = consumed s + unat sz"
    "\<forall>a. memory s1 a = (if p + unat (sz - sz) \<le> a \<and> a < p + unat sz
            then source s (consumed s + (a - (p + unat (sz - sz)))) else memory s a)"
    by blast
  from read_loop_frame [OF s1(1)] have "lock' s1 = lock' s" by simp
  with s1 show ?thesis by (simp add: internal_read_def)
qed

text \<open>
  C1, as the code has it. For every requested size \<open>sz\<close> up to \<^verbatim>\<open>INT_MAX\<close>, if the read
  primitive returns positive byte counts, each at most the count still missing, until \<open>sz\<close>
  bytes have been delivered, then \<^verbatim>\<open>__read\<close> returns exactly \<open>sz\<close> and the target region holds
  the \<open>sz\<close> bytes of the source, in order. So does \<^verbatim>\<open>read(void*, size)\<close> when the mutex is free,
  and \<^verbatim>\<open>read(Buffer*, size)\<close> into a buffer of nonzero capacity at least \<open>sz\<close>; both release
  the mutex.
\<close>

theorem full_read:
  assumes "delivers (pending s) sz" and "sz < 2 ^ 31"
  shows "(\<exists>n s1. internal_read p sz s = (Returns n, s1) \<and> sint n = int (unat sz) \<and>
            (\<forall>i < unat sz. memory s1 (p + i) = source s (consumed s + i))) \<and>
         (\<not> lock' s \<longrightarrow>
          (\<exists>n s1. read_void p sz s = (Returns n, s1) \<and> sint n = int (unat sz) \<and> \<not> lock' s1 \<and>
            (\<forall>i < unat sz. memory s1 (p + i) = source s (consumed s + i)))) \<and>
         (\<not> lock' s \<and> getSize b \<noteq> 0 \<and> sz \<le> getSize b \<longrightarrow>
          (\<exists>n s1. read_Buffer b sz s = (Returns n, s1) \<and> sint n = int (unat sz) \<and> \<not> lock' s1 \<and>
            (\<forall>i < unat sz. memory s1 (getBuffer b + i) = source s (consumed s + i))))"
proof -
  note n = narrow_exact [OF assms(2)]
  have locked: "\<exists>n s1. read_void q sz s = (Returns n, s1) \<and> sint n = int (unat sz) \<and> \<not> lock' s1 \<and>
            (\<forall>i < unat sz. memory s1 (q + i) = source s (consumed s + i))"
    if free: "\<not> lock' s" for q
  proof -
    let ?s0 = "log_event Lock (s\<lparr>lock' := True\<rparr>)"
    have "delivers (pending ?s0) sz" using assms(1) by (simp add: log_event_def)
    from internal_read_fills [OF this, of q]
    obtain s1 where s1: "internal_read q sz ?s0 = (Returns (ucast sz), s1)"
      "\<forall>i < unat sz. memory s1 (q + i) = source ?s0 (consumed ?s0 + i)"
      by blast
    have "read_void q sz s = (Returns (ucast sz), unlock s1)"
      using free s1(1) by (simp add: read_void_def lock_def)
    moreover have "\<not> lock' (unlock s1)" by (simp add: unlock_def log_event_def)
    moreover have "\<forall>i < unat sz. memory (unlock s1) (q + i) = source s (consumed s + i)"
      using s1(2) by (simp add: unlock_def log_event_def)
    ultimately show ?thesis using n by blast
  qed
  have "\<exists>n s1. internal_read p sz s = (Returns n, s1) \<and> sint n = int (unat sz) \<and>
            (\<forall>i < unat sz. memory s1 (p + i) = source s (consumed s + i))"
    using internal_read_fills [OF assms(1), of p] n by blast
  moreover have "read_Buffer b sz s = read_void (getBuffer b) sz s"
    if "getSize b \<noteq> 0" "sz \<le> getSize b"
    using that by (auto simp: read_Buffer_def read_void_def)
  ultimately show ?thesis using locked by auto
qed

text \<open>A read of 5 bytes into a buffer of capacity 8, served in two calls (3 and 2 bytes).\<close>

theorem full_read_witness:
  "delivers (pending (fresh_system [3, 2])) 5 \<and> (5 :: size_t) < 2 ^ 31 \<and>
   \<not> lock' (fresh_system [3, 2]) \<and>
   getSize \<lparr>getBuffer = 16, getSize = 8\<rparr> \<noteq> 0 \<and> (5 :: size_t) \<le> getSize \<lparr>getBuffer = 16, getSize = 8\<rparr> \<and>
   fst (read_Buffer \<lparr>getBuffer = 16, getSize = 8\<rparr> 5 (fresh_system [3, 2])) = Returns 5 \<and>
   map (memory (snd (read_Buffer \<lparr>getBuffer = 16, getSize = 8\<rparr> 5 (fresh_system [3, 2]))))
     [16, 17, 18, 19, 20] = [0, 1, 2, 3, 4]"
  using full_read [of "fresh_system [3, 2]" 5 16 "\<lparr>getBuffer = 16, getSize = 8\<rparr>"]
  by (simp add: model_defs)

text \<open>
  The claim without the two restrictions fails. A read of 0 bytes into a buffer of capacity 0
  returns \<open>-1\<close>, and a read of 2147483648 bytes that is fully served, in calls of
  2147479552 and 4096 bytes, returns \<open>-2147483648\<close>.
\<close>

theorem full_read_counterexample:
  "delivers (pending (fresh_system [])) 0 \<and>
   (0 :: size_t) \<le> getSize \<lparr>getBuffer = 16, getSize = 0\<rparr> \<and>
   \<not> lock' (fresh_system []) \<and>
   fst (read_Buffer \<lparr>getBuffer = 16, getSize = 0\<rparr> 0 (fresh_system [])) = Returns (- 1) \<and>
   delivers (pending (fresh_system [0x7ffff000, 0x1000])) 0x80000000 \<and>
   fst (internal_read 16 0x80000000 (fresh_system [0x7ffff000, 0x1000])) = Returns (- 0x80000000) \<and>
   sint (- 0x80000000 :: c_int) = - 2147483648 \<and> int (unat (0x80000000 :: size_t)) = 2147483648"
  by (simp add: model_defs)

text \<open>The equations of the vocabulary of the runner and of the concrete handlers.\<close>

lemmas spec_defs =
  buffer_mode_def read_mode_def staged_target_def matching_loop_def matching_handler_def
  handler_event_def transferred_def returning_buff_code_def returning_void_code_def

subsection \<open>The count that the worker routine hands to the handler\<close>

text \<open>
  A loop that returns yields the number of bytes it has transferred, reduced to the 64 bits of
  \<^verbatim>\<open>size_t\<close> by the arithmetic of \<open>remaining\<close> and then to the 32 bits of \<^verbatim>\<open>int\<close>.
\<close>

lemma read_loop_sum:
  "read_loop buffer sz remaining s = (Returns n, s1) \<Longrightarrow>
   consumed s \<le> consumed s1 \<and>
   n = ucast (sz - remaining + of_nat (consumed s1 - consumed s))"
proof (induction "pending s" arbitrary: s remaining)
  case Nil
  then show ?case
    by (cases "remaining = 0") (auto simp: read_loop_done read_loop_blocks word_greater_zero_iff)
next
  case (Cons r rs)
  show ?case
  proof (cases "remaining = 0")
    case True
    with Cons.prems show ?thesis by (auto simp: read_loop_done)
  next
    case False
    then have pos: "0 < remaining" by (simp add: word_greater_zero_iff)
    note p = Cons.hyps(2) [symmetric]
    show ?thesis
    proof (cases r rule: result_cases)
      case 1
      with Cons.prems pos p show ?thesis
        by (auto simp: read_loop_eof log_event_def)
    next
      case 2
      with Cons.prems pos p show ?thesis
        by (auto simp: read_loop_error)
    next
      case 3
      let ?s2 = "log_event (SysRead (buffer + unat (sz - remaining)) remaining r)
          ((store_input (buffer + unat (sz - remaining)) (unat r) s)\<lparr>pending := rs\<rparr>)"
      have rl: "read_loop buffer sz (remaining - r) ?s2 = (Returns n, s1)"
        using Cons.prems read_loop_step [OF pos p 3] by simp
      have ps: "rs = pending ?s2" by (simp add: log_event_def)
      from Cons.hyps(1) [OF ps rl]
      have ih: "consumed ?s2 \<le> consumed s1"
        "n = ucast (sz - (remaining - r) + of_nat (consumed s1 - consumed ?s2))"
        by simp_all
      have c: "consumed ?s2 = consumed s + unat r"
        by (simp add: log_event_def store_input_def)
      with ih(1) have d: "consumed s1 - consumed s = unat r + (consumed s1 - consumed ?s2)"
        by simp
      have eq: "sz - (remaining - r) + of_nat (consumed s1 - consumed ?s2) =
            sz - remaining + (of_nat (consumed s1 - consumed s) :: size_t)"
        unfolding d by simp
      have "consumed s \<le> consumed s1" using ih(1) c by simp
      with ih(2) [unfolded eq] show ?thesis by (rule conjI [rotated])
    qed
  qed
qed

lemma write_loop_sum:
  "write_loop buffer sz remaining s = (Returns n, s1) \<Longrightarrow>
   emitted s \<le> emitted s1 \<and>
   n = ucast (sz - remaining + of_nat (emitted s1 - emitted s))"
proof (induction "pending s" arbitrary: s remaining)
  case Nil
  then show ?case
    by (cases "remaining = 0") (auto simp: write_loop_done write_loop_blocks word_greater_zero_iff)
next
  case (Cons r rs)
  show ?case
  proof (cases "remaining = 0")
    case True
    with Cons.prems show ?thesis by (auto simp: write_loop_done)
  next
    case False
    then have pos: "0 < remaining" by (simp add: word_greater_zero_iff)
    note p = Cons.hyps(2) [symmetric]
    show ?thesis
    proof (cases r rule: result_cases)
      case 1
      with Cons.prems pos p show ?thesis
        by (auto simp: write_loop_eof log_event_def)
    next
      case 2
      with Cons.prems pos p show ?thesis
        by (auto simp: write_loop_error)
    next
      case 3
      let ?s2 = "log_event (SysWrite (buffer + unat (sz - remaining)) remaining r)
          ((load_output (buffer + unat (sz - remaining)) (unat r) s)\<lparr>pending := rs\<rparr>)"
      have rl: "write_loop buffer sz (remaining - r) ?s2 = (Returns n, s1)"
        using Cons.prems write_loop_step [OF pos p 3] by simp
      have ps: "rs = pending ?s2" by (simp add: log_event_def)
      from Cons.hyps(1) [OF ps rl]
      have ih: "emitted ?s2 \<le> emitted s1"
        "n = ucast (sz - (remaining - r) + of_nat (emitted s1 - emitted ?s2))"
        by simp_all
      have c: "emitted ?s2 = emitted s + unat r"
        by (simp add: log_event_def load_output_def)
      with ih(1) have d: "emitted s1 - emitted s = unat r + (emitted s1 - emitted ?s2)"
        by simp
      have eq: "sz - (remaining - r) + of_nat (emitted s1 - emitted ?s2) =
            sz - remaining + (of_nat (emitted s1 - emitted s) :: size_t)"
        unfolding d by simp
      have "emitted s \<le> emitted s1" using ih(1) c by simp
      with ih(2) [unfolded eq] show ?thesis by (rule conjI [rotated])
    qed
  qed
qed

text \<open>Up to \<^verbatim>\<open>INT_MAX\<close> bytes, the two conversions give the number back.\<close>

lemma widen_narrow_exact:
  assumes "m < 2 ^ 31"
  shows "scast (ucast (of_nat m :: size_t) :: c_int) = (of_nat m :: size_t)"
proof -
  let ?k = "of_nat m :: size_t"
  have "m \<le> unat (2 ^ 31 :: size_t)" using assms by simp
  then have u: "unat ?k = m" by (rule le_unat_uoi)
  then have "?k < 2 ^ 31" using assms by (simp add: word_less_nat_alt)
  from narrow_exact [OF this] u have "sint (ucast ?k :: c_int) = int m" by simp
  then show ?thesis by (simp add: scast_eq)
qed

lemma matching_loop_count:
  assumes "matching_loop t s = (Returns n, s1)" and "transferred t s s1 < 2 ^ 31"
  shows "scast n = (of_nat (transferred t s s1) :: size_t)"
proof (cases "read_mode (async_operation' t)")
  case True
  with assms(1) have "read_loop (staged_target t) (size' t) (size' t) s = (Returns n, s1)"
    by (simp add: matching_loop_def internal_read_def)
  from read_loop_sum [OF this] have "n = ucast (of_nat (consumed s1 - consumed s) :: size_t)"
    by simp
  with True assms(2) show ?thesis
    by (simp add: transferred_def widen_narrow_exact)
next
  case False
  with assms(1) have "write_loop (staged_target t) (size' t) (size' t) s = (Returns n, s1)"
    by (simp add: matching_loop_def internal_write_def)
  from write_loop_sum [OF this] have "n = ucast (of_nat (emitted s1 - emitted s) :: size_t)"
    by simp
  with False assms(2) show ?thesis
    by (simp add: transferred_def widen_narrow_exact)
qed

subsection \<open>The worker routine\<close>

lemma matching_loop_frame:
  assumes "matching_loop t s = (out, s1)"
  shows "lock' s1 = lock' s \<and> async_thread' s1 = async_thread' s \<and>
         (\<exists>evs. trace s1 = trace s @ evs \<and> (\<forall>ev \<in> set evs. \<not> handler_call ev \<and> ev \<noteq> Unlock))"
proof (cases "read_mode (async_operation' t)")
  case True
  with assms have "read_loop (staged_target t) (size' t) (size' t) s = (out, s1)"
    by (simp add: matching_loop_def internal_read_def)
  from read_loop_frame [OF this] show ?thesis by fastforce
next
  case False
  with assms have "write_loop (staged_target t) (size' t) (size' t) s = (out, s1)"
    by (simp add: matching_loop_def internal_write_def)
  from write_loop_frame [OF this] show ?thesis by fastforce
qed

lemma run_transfer_matching:
  "async_operation' (async_thread' s) \<noteq> NONE \<Longrightarrow>
   run_transfer s = matching_loop (async_thread' s) s"
  by (cases "async_operation' (async_thread' s)")
     (simp_all add: run_transfer_def spec_defs Let_def)

lemma call_handler_matching:
  "call_handler hb hv n s =
     matching_handler hb hv (async_thread' s) (scast n)
       (log_event (handler_event (async_thread' s) (scast n)) s)"
  by (simp add: call_handler_def spec_defs Let_def)

text \<open>
  The worker routine after a loop that returns \<open>n\<close>: the matching handler is entered with
  the staged target and \<open>n\<close> converted to \<^verbatim>\<open>size_t\<close>, in the state the loop left with the
  mutex released and the unlock and this invocation recorded. What the handler does decides
  the rest: the staged operation is reset in the state it leaves when it returns, and its
  exception or its not returning is that of the routine.
\<close>

lemma run_result:
  assumes "async_operation' (async_thread' s) \<noteq> NONE"
    and "matching_loop (async_thread' s) s = (Returns n, s1)"
  shows "run hb hv s =
           (case matching_handler hb hv (async_thread' s) (scast n)
                   (s1\<lparr>lock' := False,
                       trace := trace s1 @ [Unlock, handler_event (async_thread' s) (scast n)]\<rparr>) of
              (Returns u, s2) \<Rightarrow>
                (Returns (), s2\<lparr>async_thread' := (async_thread' s2)\<lparr>async_operation' := NONE\<rparr>\<rparr>)
            | (Throws e, s2) \<Rightarrow> (Throws e, s2)
            | (Blocks, s2) \<Rightarrow> (Blocks, s2))"
proof -
  note fr = matching_loop_frame [OF assms(2)]
  have "call_handler hb hv n (unlock s1) =
      matching_handler hb hv (async_thread' s) (scast n)
        (s1\<lparr>lock' := False,
            trace := trace s1 @ [Unlock, handler_event (async_thread' s) (scast n)]\<rparr>)"
    using fr by (simp add: call_handler_matching unlock_def log_event_def)
  then show ?thesis
    using assms by (simp add: run_def run_transfer_matching run_completion_def)
qed

text \<open>Whatever the handler has done, a worker routine that returns leaves no operation staged.\<close>

lemma run_leaves_none:
  assumes "run hb hv s = (Returns u, s1)"
  shows "async_operation' (async_thread' s1) = NONE"
proof -
  obtain out s2 where rt: "run_transfer s = (out, s2)" by (cases "run_transfer s")
  with assms obtain n where n: "out = Returns n"
    by (cases out) (simp_all add: run_def)
  obtain out3 s3 where ch: "call_handler hb hv n (unlock s2) = (out3, s3)"
    by (cases "call_handler hb hv n (unlock s2)")
  with assms rt n show ?thesis
    by (cases out3) (auto simp: run_def run_completion_def)
qed

text \<open>
  C6, as the code has it. For every execution of \<^verbatim>\<open>run()\<close> with a staged operation other than
  \<open>NONE\<close> in which the transfer loop returns, having transferred at most \<^verbatim>\<open>INT_MAX\<close> bytes:
  the loop that ran is the one matching the staged operation, and it invokes no handler and
  does not release the mutex; the handler matching the staged operation is then entered
  once, with the staged target and the number of bytes transferred, in a state whose mutex is
  free and whose trace ends with the unlock followed by the record of this invocation; and
  once this handler has returned, the staged operation is reset to \<open>NONE\<close> in the state it
  left. A handler that throws or does not return ends the routine in the same way.
\<close>

theorem run_completes:
  assumes "async_operation' (async_thread' s) \<noteq> NONE"
    and "matching_loop (async_thread' s) s = (Returns n, s1)"
    and "transferred (async_thread' s) s s1 < 2 ^ 31"
  shows "run hb hv s =
           (case matching_handler hb hv (async_thread' s)
                   (of_nat (transferred (async_thread' s) s s1))
                   (s1\<lparr>lock' := False,
                       trace := trace s1 @
                         [Unlock, handler_event (async_thread' s)
                                    (of_nat (transferred (async_thread' s) s s1))]\<rparr>) of
              (Returns u, s2) \<Rightarrow>
                (Returns (), s2\<lparr>async_thread' := (async_thread' s2)\<lparr>async_operation' := NONE\<rparr>\<rparr>)
            | (Throws e, s2) \<Rightarrow> (Throws e, s2)
            | (Blocks, s2) \<Rightarrow> (Blocks, s2)) \<and>
         (\<exists>evs. trace s1 = trace s @ evs \<and> (\<forall>ev \<in> set evs. \<not> handler_call ev \<and> ev \<noteq> Unlock))"
  using run_result [OF assms(1,2)] matching_loop_count [OF assms(2,3)]
    matching_loop_frame [OF assms(2)]
  by simp

text \<open>
  An asynchronous read of 4 bytes into a buffer, staged with the mutex held and served in one
  call, with a handler that returns at once.
\<close>

theorem run_completes_witness:
  "async_operation' (async_thread'
     (startAsyncOperation_Buffer True 7 \<lparr>getBuffer = 16, getSize = 8\<rparr> 4
        ((fresh_system [4])\<lparr>lock' := True\<rparr>))) \<noteq> NONE \<and>
   fst (matching_loop
     (async_thread' (startAsyncOperation_Buffer True 7 \<lparr>getBuffer = 16, getSize = 8\<rparr> 4
        ((fresh_system [4])\<lparr>lock' := True\<rparr>)))
     (startAsyncOperation_Buffer True 7 \<lparr>getBuffer = 16, getSize = 8\<rparr> 4
        ((fresh_system [4])\<lparr>lock' := True\<rparr>))) = Returns 4 \<and>
   transferred
     (async_thread' (startAsyncOperation_Buffer True 7 \<lparr>getBuffer = 16, getSize = 8\<rparr> 4
        ((fresh_system [4])\<lparr>lock' := True\<rparr>)))
     (startAsyncOperation_Buffer True 7 \<lparr>getBuffer = 16, getSize = 8\<rparr> 4
        ((fresh_system [4])\<lparr>lock' := True\<rparr>))
     (snd (matching_loop
       (async_thread' (startAsyncOperation_Buffer True 7 \<lparr>getBuffer = 16, getSize = 8\<rparr> 4
          ((fresh_system [4])\<lparr>lock' := True\<rparr>)))
       (startAsyncOperation_Buffer True 7 \<lparr>getBuffer = 16, getSize = 8\<rparr> 4
          ((fresh_system [4])\<lparr>lock' := True\<rparr>)))) = 4 \<and>
   (4 :: nat) < 2 ^ 31 \<and>
   fst (run returning_buff_code returning_void_code
     (startAsyncOperation_Buffer True 7 \<lparr>getBuffer = 16, getSize = 8\<rparr> 4
        ((fresh_system [4])\<lparr>lock' := True\<rparr>))) = Returns () \<and>
   trace (snd (run returning_buff_code returning_void_code
     (startAsyncOperation_Buffer True 7 \<lparr>getBuffer = 16, getSize = 8\<rparr> 4
        ((fresh_system [4])\<lparr>lock' := True\<rparr>)))) =
     [Start, SysRead 16 4 4, Unlock, BuffHandler 7 \<lparr>getBuffer = 16, getSize = 8\<rparr> 4] \<and>
   async_operation' (async_thread' (snd (run returning_buff_code returning_void_code
     (startAsyncOperation_Buffer True 7 \<lparr>getBuffer = 16, getSize = 8\<rparr> 4
        ((fresh_system [4])\<lparr>lock' := True\<rparr>))))) = NONE \<and>
   \<not> lock' (snd (run returning_buff_code returning_void_code
     (startAsyncOperation_Buffer True 7 \<lparr>getBuffer = 16, getSize = 8\<rparr> 4
        ((fresh_system [4])\<lparr>lock' := True\<rparr>))))"
proof -
  let ?s = "startAsyncOperation_Buffer True 7 \<lparr>getBuffer = 16, getSize = 8\<rparr> 4
        ((fresh_system [4])\<lparr>lock' := True\<rparr>)"
  let ?s1 = "snd (matching_loop (async_thread' ?s) ?s)"
  have a: "async_operation' (async_thread' ?s) \<noteq> NONE"
    by (simp add: model_defs)
  have b': "fst (matching_loop (async_thread' ?s) ?s) = Returns 4"
    by (simp add: model_defs spec_defs)
  then have b: "matching_loop (async_thread' ?s) ?s = (Returns 4, ?s1)"
    by (simp add: prod_eq_iff)
  have c': "transferred (async_thread' ?s) ?s ?s1 = 4"
    by (simp add: model_defs spec_defs)
  then have c: "transferred (async_thread' ?s) ?s ?s1 < 2 ^ 31" by simp
  from run_completes [OF a b c, of returning_buff_code returning_void_code] a b' c'
  show ?thesis
    by (simp add: model_defs spec_defs Let_def)
qed

text \<open>
  Without the two restrictions the claim fails. With a read staged and \<^verbatim>\<open>::read\<close> reporting
  \<open>-1\<close>, \<^verbatim>\<open>run()\<close> throws; the mutex is still held, no handler has been invoked and the staged
  operation is not reset. And after a staged write of 4294967295 bytes that is fully served,
  the handler is told 18446744073709551615 bytes.
\<close>

theorem run_completes_counterexample:
  "async_operation' (async_thread'
     (startAsyncOperation_void True 7 16 4 ((fresh_system [- 1])\<lparr>lock' := True\<rparr>))) = READ_VOID \<and>
   fst (run returning_buff_code returning_void_code
     (startAsyncOperation_void True 7 16 4 ((fresh_system [- 1])\<lparr>lock' := True\<rparr>)))
     = Throws (runtime_error ''Read error'') \<and>
   trace (snd (run returning_buff_code returning_void_code
     (startAsyncOperation_void True 7 16 4 ((fresh_system [- 1])\<lparr>lock' := True\<rparr>))))
     = [Start, SysRead 16 4 (- 1)] \<and>
   lock' (snd (run returning_buff_code returning_void_code
     (startAsyncOperation_void True 7 16 4 ((fresh_system [- 1])\<lparr>lock' := True\<rparr>)))) \<and>
   async_operation' (async_thread' (snd (run returning_buff_code returning_void_code
     (startAsyncOperation_void True 7 16 4 ((fresh_system [- 1])\<lparr>lock' := True\<rparr>)))))
     = READ_VOID \<and>
   fst (run returning_buff_code returning_void_code
     (startAsyncOperation_void False 7 16 0xFFFFFFFF
        ((fresh_system [0x7ffff000, 0x7ffff000, 0x1fff])\<lparr>lock' := True\<rparr>))) = Returns () \<and>
   emitted (snd (run returning_buff_code returning_void_code
     (startAsyncOperation_void False 7 16 0xFFFFFFFF
        ((fresh_system [0x7ffff000, 0x7ffff000, 0x1fff])\<lparr>lock' := True\<rparr>)))) = 4294967295 \<and>
   last (trace (snd (run returning_buff_code returning_void_code
     (startAsyncOperation_void False 7 16 0xFFFFFFFF
        ((fresh_system [0x7ffff000, 0x7ffff000, 0x1fff])\<lparr>lock' := True\<rparr>)))))
     = VoidHandler 7 16 18446744073709551615"
  by (simp add: model_defs spec_defs Let_def)

subsection \<open>A handler that starts the next operation\<close>

text \<open>
  C7 at a concrete input. A read of 4 bytes is staged and served; its handler starts the next
  asynchronous read, of 1 byte, on the same runner and returns. The restart stages
  \<open>READ_VOID\<close> with size 1 and launches the thread, and then \<^verbatim>\<open>run()\<close> resets the staged
  operation: after \<^verbatim>\<open>run()\<close> the size of the restart is staged and the operation is \<open>NONE\<close>. The
  \<^verbatim>\<open>run()\<close> of the launched thread throws \<^verbatim>\<open>"Async error"\<close> and the byte that is pending is
  never read.
\<close>

theorem restart_overwritten:
  "fst (run returning_buff_code restarting_void_code
     (startAsyncOperation_void True 7 16 4 ((fresh_system [4, 1])\<lparr>lock' := True\<rparr>))) = Returns () \<and>
   trace (snd (run returning_buff_code restarting_void_code
     (startAsyncOperation_void True 7 16 4 ((fresh_system [4, 1])\<lparr>lock' := True\<rparr>))))
     = [Start, SysRead 16 4 4, Unlock, VoidHandler 7 16 4, Start] \<and>
   async_operation' (async_thread' (startAsyncOperation_void True 7 16 1 (fresh_system []))) =
     READ_VOID \<and>
   size' (async_thread' (snd (run returning_buff_code restarting_void_code
     (startAsyncOperation_void True 7 16 4 ((fresh_system [4, 1])\<lparr>lock' := True\<rparr>))))) = 1 \<and>
   async_operation' (async_thread' (snd (run returning_buff_code restarting_void_code
     (startAsyncOperation_void True 7 16 4 ((fresh_system [4, 1])\<lparr>lock' := True\<rparr>))))) = NONE \<and>
   fst (run returning_buff_code restarting_void_code
     (snd (run returning_buff_code restarting_void_code
       (startAsyncOperation_void True 7 16 4 ((fresh_system [4, 1])\<lparr>lock' := True\<rparr>)))))
     = Throws (runtime_error ''Async error'') \<and>
   pending (snd (run returning_buff_code restarting_void_code
     (snd (run returning_buff_code restarting_void_code
       (startAsyncOperation_void True 7 16 4 ((fresh_system [4, 1])\<lparr>lock' := True\<rparr>))))))
     = [1]"
  by (simp add: model_defs spec_defs restarting_void_code_def Let_def)

subsection \<open>The asynchronous path and the capacity of the buffer\<close>

lemma read_loop_trace:
  "\<exists>evs. trace (snd (read_loop buffer sz remaining s)) = trace s @ evs"
  using read_loop_frame [of buffer sz remaining s "fst (read_loop buffer sz remaining s)"
      "snd (read_loop buffer sz remaining s)"]
  by auto

lemma write_loop_trace:
  "\<exists>evs. trace (snd (write_loop buffer sz remaining s)) = trace s @ evs"
  using write_loop_frame [of buffer sz remaining s "fst (write_loop buffer sz remaining s)"
      "snd (write_loop buffer sz remaining s)"]
  by auto

lemma internal_read_first_call:
  assumes "sz \<noteq> 0" "pending s = r # rs"
  shows "\<exists>evs. trace (snd (internal_read p sz s)) = trace s @ SysRead p sz r # evs"
proof -
  from assms(1) have pos: "0 < sz" by (simp add: word_greater_zero_iff)
  show ?thesis
  proof (cases r rule: result_cases)
    case 1
    with pos assms(2) show ?thesis
      by (simp add: internal_read_def read_loop_eof log_event_def)
  next
    case 2
    with pos assms(2) show ?thesis
      by (simp add: internal_read_def read_loop_error log_event_def)
  next
    case 3
    let ?s2 = "log_event (SysRead (p + unat (sz - sz)) sz r)
          ((store_input (p + unat (sz - sz)) (unat r) s)\<lparr>pending := rs\<rparr>)"
    from read_loop_trace [of p sz "sz - r" ?s2]
    obtain evs where "trace (snd (read_loop p sz (sz - r) ?s2)) = trace ?s2 @ evs" ..
    then show ?thesis
      using read_loop_step [OF pos assms(2) 3, of p sz]
      by (simp add: internal_read_def log_event_def store_input_def)
  qed
qed

lemma internal_write_first_call:
  assumes "sz \<noteq> 0" "pending s = r # rs"
  shows "\<exists>evs. trace (snd (internal_write p sz s)) = trace s @ SysWrite p sz r # evs"
proof -
  from assms(1) have pos: "0 < sz" by (simp add: word_greater_zero_iff)
  show ?thesis
  proof (cases r rule: result_cases)
    case 1
    with pos assms(2) show ?thesis
      by (simp add: internal_write_def write_loop_eof log_event_def)
  next
    case 2
    with pos assms(2) show ?thesis
      by (simp add: internal_write_def write_loop_error log_event_def)
  next
    case 3
    let ?s2 = "log_event (SysWrite (p + unat (sz - sz)) sz r)
          ((load_output (p + unat (sz - sz)) (unat r) s)\<lparr>pending := rs\<rparr>)"
    from write_loop_trace [of p sz "sz - r" ?s2]
    obtain evs where "trace (snd (write_loop p sz (sz - r) ?s2)) = trace ?s2 @ evs" ..
    then show ?thesis
      using write_loop_step [OF pos assms(2) 3, of p sz]
      by (simp add: internal_write_def log_event_def load_output_def)
  qed
qed

text \<open>
  C10. \<^verbatim>\<open>startAsyncOperation\<close> with a \<^verbatim>\<open>Buffer*\<close> target stages the operation for every buffer
  and every size: it stores the size, the handler and the buffer, sets the operation, and
  launches the thread; it emits no diagnostic and never looks at the capacity. \<^verbatim>\<open>run()\<close> on
  the staged state then is the transfer loop on the bytes of the buffer with the size as
  staged, followed, when the loop returns, by the unlock and the buffer handler: the exception
  of the loop is the exception of \<^verbatim>\<open>run()\<close>, and no \<open>-1\<close> for a size beyond the capacity comes
  from \<^verbatim>\<open>run()\<close> itself. When the size is not zero and the primitive answers, the first call of
  the loop asks for the whole staged size, whatever the capacity of the buffer is.
\<close>

theorem async_size_unvalidated:
  "async_thread' (startAsyncOperation_Buffer rd h b sz s) =
     (async_thread' s)\<lparr>size' := sz, buff_handler' := h, buff_buffer' := b,
        async_operation' := (if rd then READ_BUFFER else WRITE_BUFFER)\<rparr> \<and>
   trace (startAsyncOperation_Buffer rd h b sz s) = trace s @ [Start] \<and>
   run hb hv (startAsyncOperation_Buffer rd h b sz s) =
     (case (if rd then internal_read else internal_write) (getBuffer b) sz
             (startAsyncOperation_Buffer rd h b sz s) of
        (Returns n, s1) \<Rightarrow>
          (case hb h b (scast n)
                  (s1\<lparr>lock' := False,
                      trace := trace s1 @ [Unlock, BuffHandler h b (scast n)]\<rparr>) of
             (Returns u, s2) \<Rightarrow>
               (Returns (), s2\<lparr>async_thread' := (async_thread' s2)\<lparr>async_operation' := NONE\<rparr>\<rparr>)
           | (Throws e, s2) \<Rightarrow> (Throws e, s2)
           | (Blocks, s2) \<Rightarrow> (Blocks, s2))
      | (Throws e, s1) \<Rightarrow> (Throws e, s1)
      | (Blocks, s1) \<Rightarrow> (Blocks, s1)) \<and>
   (sz \<noteq> 0 \<and> pending s = r # rs \<longrightarrow>
     (\<exists>evs. trace (snd ((if rd then internal_read else internal_write) (getBuffer b) sz
                         (startAsyncOperation_Buffer rd h b sz s))) =
        trace s @ [Start, (if rd then SysRead else SysWrite) (getBuffer b) sz r] @ evs))"
proof -
  let ?s1 = "startAsyncOperation_Buffer rd h b sz s"
  let ?L = "(if rd then internal_read else internal_write) (getBuffer b) sz ?s1"
  have st: "async_thread' ?s1 =
     (async_thread' s)\<lparr>size' := sz, buff_handler' := h, buff_buffer' := b,
        async_operation' := (if rd then READ_BUFFER else WRITE_BUFFER)\<rparr>"
    "trace ?s1 = trace s @ [Start]" "pending ?s1 = pending s"
    by (simp_all add: startAsyncOperation_Buffer_def start_def log_event_def)
  have mode: "async_operation' (async_thread' ?s1) \<noteq> NONE" by (simp add: st(1))
  have ml: "matching_loop (async_thread' ?s1) ?s1 = ?L"
    by (simp add: st(1) spec_defs)
  have rn: "run hb hv ?s1 =
     (case ?L of
        (Returns n, s1) \<Rightarrow>
          (case hb h b (scast n)
                  (s1\<lparr>lock' := False,
                      trace := trace s1 @ [Unlock, BuffHandler h b (scast n)]\<rparr>) of
             (Returns u, s2) \<Rightarrow>
               (Returns (), s2\<lparr>async_thread' := (async_thread' s2)\<lparr>async_operation' := NONE\<rparr>\<rparr>)
           | (Throws e, s2) \<Rightarrow> (Throws e, s2)
           | (Blocks, s2) \<Rightarrow> (Blocks, s2))
      | (Throws e, s1) \<Rightarrow> (Throws e, s1)
      | (Blocks, s1) \<Rightarrow> (Blocks, s1))"
  proof -
    obtain out s1 where L: "?L = (out, s1)" by (cases ?L)
    show ?thesis
    proof (cases out)
      case (Returns n)
      with L ml have "matching_loop (async_thread' ?s1) ?s1 = (Returns n, s1)" by simp
      from run_result [OF mode this, of hb hv] L Returns show ?thesis
        by (simp add: st(1) spec_defs)
    next
      case (Throws e)
      with L ml mode show ?thesis
        by (simp add: run_def run_transfer_matching)
    next
      case Blocks
      with L ml mode show ?thesis
        by (simp add: run_def run_transfer_matching)
    qed
  qed
  have "\<exists>evs. trace (snd ?L) =
        trace s @ [Start, (if rd then SysRead else SysWrite) (getBuffer b) sz r] @ evs"
    if "sz \<noteq> 0" "pending s = r # rs"
  proof -
    from that st(3) have p: "pending ?s1 = r # rs" by simp
    have "\<exists>evs. trace (snd (internal_read (getBuffer b) sz ?s1)) =
        trace s @ [Start, SysRead (getBuffer b) sz r] @ evs"
      "\<exists>evs. trace (snd (internal_write (getBuffer b) sz ?s1)) =
        trace s @ [Start, SysWrite (getBuffer b) sz r] @ evs"
      using internal_read_first_call [OF that(1) p, of "getBuffer b"]
        internal_write_first_call [OF that(1) p, of "getBuffer b"]
      by (simp_all add: st(2))
    then show ?thesis by auto
  qed
  with st(1,2) rn show ?thesis by blast
qed

text \<open>
  An asynchronous read of 9 bytes into a buffer of capacity 4: \<^verbatim>\<open>run()\<close> asks the primitive for
  9 bytes, which stores 9, the last one at offset 8, and tells the handler 9. The synchronous
  read of the same buffer and size returns \<open>-1\<close>.
\<close>

theorem async_size_unvalidated_witness:
  "(9 :: size_t) \<noteq> 0 \<and> pending ((fresh_system [9])\<lparr>lock' := True\<rparr>) = [9] \<and>
   getSize \<lparr>getBuffer = 16, getSize = 4\<rparr> < (9 :: size_t) \<and>
   fst (run returning_buff_code returning_void_code
     (startAsyncOperation_Buffer True 7 \<lparr>getBuffer = 16, getSize = 4\<rparr> 9
       ((fresh_system [9])\<lparr>lock' := True\<rparr>))) = Returns () \<and>
   trace (snd (run returning_buff_code returning_void_code
     (startAsyncOperation_Buffer True 7 \<lparr>getBuffer = 16, getSize = 4\<rparr> 9
       ((fresh_system [9])\<lparr>lock' := True\<rparr>)))) =
     [Start, SysRead 16 9 9, Unlock, BuffHandler 7 \<lparr>getBuffer = 16, getSize = 4\<rparr> 9] \<and>
   memory (snd (run returning_buff_code returning_void_code
     (startAsyncOperation_Buffer True 7 \<lparr>getBuffer = 16, getSize = 4\<rparr> 9
       ((fresh_system [9])\<lparr>lock' := True\<rparr>)))) 24 = 8 \<and>
   fst (read_Buffer \<lparr>getBuffer = 16, getSize = 4\<rparr> 9 (fresh_system [9])) = Returns (- 1)"
  using async_size_unvalidated [of True 7 "\<lparr>getBuffer = 16, getSize = 4\<rparr>" 9
      "(fresh_system [9])\<lparr>lock' := True\<rparr>" returning_buff_code returning_void_code 9 "[]"]
  by (simp add: model_defs spec_defs Let_def)

subsection \<open>The mutex in the synchronous operations\<close>

text \<open>
  The two synchronous reads bracket the loop: when the mutex is free, the new events are the
  lock, the calls of the loop and, once the loop has returned, the unlock.
\<close>

lemma sync_read_holds_lock:
  assumes "\<not> lock' s"
  shows "\<exists>evs. (\<forall>ev \<in> set evs. \<exists>q c r. ev = SysRead q c r) \<and>
           new_events s (snd (read_void p sz s)) =
             Lock # evs @ (case fst (read_void p sz s) of Returns n \<Rightarrow> [Unlock] | _ \<Rightarrow> [])"
proof -
  let ?s1 = "log_event Lock (s\<lparr>lock' := True\<rparr>)"
  obtain out s2 where ir: "read_loop p sz sz ?s1 = (out, s2)"
    by (cases "read_loop p sz sz ?s1")
  from read_loop_frame [OF ir]
  obtain evs where evs: "trace s2 = trace ?s1 @ evs" "\<forall>ev \<in> set evs. \<exists>q c r. ev = SysRead q c r"
    by blast
  have "new_events s (snd (read_void p sz s)) =
          Lock # evs @ (case fst (read_void p sz s) of Returns n \<Rightarrow> [Unlock] | _ \<Rightarrow> [])"
    using assms ir evs(1)
    by (cases out)
       (simp_all add: read_void_def lock_def unlock_def internal_read_def log_event_def
          new_events_def)
  with evs(2) show ?thesis by blast
qed

text \<open>The three synchronous writes never operate the mutex.\<close>

lemma sync_write_never_locks:
  "Lock \<notin> set (new_events s (snd (write_void p sz s)))"
  "Lock \<notin> set (new_events s (snd (write_Buffer b sz s)))"
  "Lock \<notin> set (new_events s (snd (write_string str s)))"
proof -
  have w: "Lock \<notin> set (new_events s (snd (internal_write q n s)))" for q n
    using write_loop_frame [of q n n s "fst (write_loop q n n s)" "snd (write_loop q n n s)"]
    by (auto simp: internal_write_def new_events_def)
  show "Lock \<notin> set (new_events s (snd (write_void p sz s)))"
    "Lock \<notin> set (new_events s (snd (write_string str s)))"
    using w by (simp_all add: write_void_def write_string_def)
  show "Lock \<notin> set (new_events s (snd (write_Buffer b sz s)))"
    using w [of "getBuffer b" sz]
    by (simp add: write_Buffer_def DEBUG_def log_event_def new_events_def)
qed

text \<open>
  C2 at a concrete input. With the mutex free and one result pending, \<^verbatim>\<open>write(const void*, 1)\<close>,
  \<^verbatim>\<open>write(Buffer*, 1)\<close> and \<^verbatim>\<open>write(const std::string&)\<close> call \<^verbatim>\<open>::write\<close> and return without any
  operation on the mutex, where \<^verbatim>\<open>read(void*, 1)\<close> locks before the call and unlocks after it.
\<close>

theorem write_without_lock:
  "\<not> lock' (fresh_system [1]) \<and>
   fst (write_void 16 1 (fresh_system [1])) = Returns 1 \<and>
   trace (snd (write_void 16 1 (fresh_system [1]))) = [SysWrite 16 1 1] \<and>
   fst (write_Buffer \<lparr>getBuffer = 16, getSize = 8\<rparr> 1 (fresh_system [1])) = Returns 1 \<and>
   trace (snd (write_Buffer \<lparr>getBuffer = 16, getSize = 8\<rparr> 1 (fresh_system [1]))) = [SysWrite 16 1 1] \<and>
   fst (write_string \<lparr>c_str = 16, string_size = 1\<rparr> (fresh_system [1])) = Returns 1 \<and>
   trace (snd (write_string \<lparr>c_str = 16, string_size = 1\<rparr> (fresh_system [1]))) = [SysWrite 16 1 1] \<and>
   trace (snd (read_void 16 1 (fresh_system [1]))) = [Lock, SysRead 16 1 1, Unlock]"
  by (simp add: model_defs)

subsection \<open>The returned count\<close>

text \<open>
  When the results stay within the request, a loop that returns has transferred some number
  \<open>k\<close> of bytes, at most the size, and returns \<open>k\<close> converted to \<^verbatim>\<open>int\<close>.
\<close>

lemma read_loop_count:
  "within_request (pending s) remaining \<Longrightarrow> remaining \<le> sz \<Longrightarrow>
   read_loop buffer sz remaining s = (Returns n, s1) \<Longrightarrow>
   \<exists>k. n = ucast k \<and> k \<le> sz \<and> consumed s \<le> consumed s1 \<and>
       unat k = unat (sz - remaining) + (consumed s1 - consumed s)"
proof (induction "pending s" arbitrary: s remaining)
  case Nil
  then show ?case
    by (cases "remaining = 0") (auto simp: read_loop_done read_loop_blocks word_greater_zero_iff)
next
  case (Cons r rs)
  show ?case
  proof (cases "remaining = 0")
    case True
    with Cons.prems show ?thesis by (auto simp: read_loop_done)
  next
    case False
    then have pos: "0 < remaining" by (simp add: word_greater_zero_iff)
    note p = Cons.hyps(2) [symmetric]
    show ?thesis
    proof (cases r rule: result_cases)
      case 1
      have "sz - remaining \<le> sz" using Cons.prems(2) by unat_arith
      with 1 Cons.prems pos p show ?thesis
        by (auto simp: read_loop_eof log_event_def)
    next
      case 2
      with Cons.prems pos p show ?thesis
        by (auto simp: read_loop_error)
    next
      case 3
      let ?s2 = "log_event (SysRead (buffer + unat (sz - remaining)) remaining r)
          ((store_input (buffer + unat (sz - remaining)) (unat r) s)\<lparr>pending := rs\<rparr>)"
      from Cons.prems(1) p False 3
      have r: "r \<le> remaining" "within_request rs (remaining - r)"
        by (auto dest: positive_result)
      note ar = remaining_sub [OF r(1) Cons.prems(2)]
      have rl: "read_loop buffer sz (remaining - r) ?s2 = (Returns n, s1)"
        using Cons.prems(3) read_loop_step [OF pos p 3] by simp
      have ps: "rs = pending ?s2" by (simp add: log_event_def)
      have "within_request (pending ?s2) (remaining - r)" using r(2) by (simp add: log_event_def)
      from Cons.hyps(1) [OF ps this ar(1) rl]
      obtain k where k: "n = ucast k" "k \<le> sz" "consumed ?s2 \<le> consumed s1"
        "unat k = unat (sz - (remaining - r)) + (consumed s1 - consumed ?s2)"
        by blast
      have c: "consumed ?s2 = consumed s + unat r"
        by (simp add: log_event_def store_input_def)
      from k c ar(3) have "consumed s \<le> consumed s1"
        "unat k = unat (sz - remaining) + (consumed s1 - consumed s)"
        by simp_all
      with k(1,2) show ?thesis by blast
    qed
  qed
qed

lemma write_loop_count:
  "within_request (pending s) remaining \<Longrightarrow> remaining \<le> sz \<Longrightarrow>
   write_loop buffer sz remaining s = (Returns n, s1) \<Longrightarrow>
   \<exists>k. n = ucast k \<and> k \<le> sz \<and> emitted s \<le> emitted s1 \<and>
       unat k = unat (sz - remaining) + (emitted s1 - emitted s)"
proof (induction "pending s" arbitrary: s remaining)
  case Nil
  then show ?case
    by (cases "remaining = 0") (auto simp: write_loop_done write_loop_blocks word_greater_zero_iff)
next
  case (Cons r rs)
  show ?case
  proof (cases "remaining = 0")
    case True
    with Cons.prems show ?thesis by (auto simp: write_loop_done)
  next
    case False
    then have pos: "0 < remaining" by (simp add: word_greater_zero_iff)
    note p = Cons.hyps(2) [symmetric]
    show ?thesis
    proof (cases r rule: result_cases)
      case 1
      have "sz - remaining \<le> sz" using Cons.prems(2) by unat_arith
      with 1 Cons.prems pos p show ?thesis
        by (auto simp: write_loop_eof log_event_def)
    next
      case 2
      with Cons.prems pos p show ?thesis
        by (auto simp: write_loop_error)
    next
      case 3
      let ?s2 = "log_event (SysWrite (buffer + unat (sz - remaining)) remaining r)
          ((load_output (buffer + unat (sz - remaining)) (unat r) s)\<lparr>pending := rs\<rparr>)"
      from Cons.prems(1) p False 3
      have r: "r \<le> remaining" "within_request rs (remaining - r)"
        by (auto dest: positive_result)
      note ar = remaining_sub [OF r(1) Cons.prems(2)]
      have rl: "write_loop buffer sz (remaining - r) ?s2 = (Returns n, s1)"
        using Cons.prems(3) write_loop_step [OF pos p 3] by simp
      have ps: "rs = pending ?s2" by (simp add: log_event_def)
      have "within_request (pending ?s2) (remaining - r)" using r(2) by (simp add: log_event_def)
      from Cons.hyps(1) [OF ps this ar(1) rl]
      obtain k where k: "n = ucast k" "k \<le> sz" "emitted ?s2 \<le> emitted s1"
        "unat k = unat (sz - (remaining - r)) + (emitted s1 - emitted ?s2)"
        by blast
      have c: "emitted ?s2 = emitted s + unat r"
        by (simp add: log_event_def load_output_def)
      from k c ar(3) have "emitted s \<le> emitted s1"
        "unat k = unat (sz - remaining) + (emitted s1 - emitted s)"
        by simp_all
      with k(1,2) show ?thesis by blast
    qed
  qed
qed

text \<open>
  Up to \<^verbatim>\<open>INT_MAX\<close> the conversion is exact: the loops return the number of bytes
  transferred, between 0 and the size.
\<close>

lemma read_count_in_range:
  assumes "within_request (pending s) sz" "sz < 2 ^ 31" "internal_read p sz s = (Returns n, s1)"
  shows "sint n = int (consumed s1 - consumed s) \<and> 0 \<le> sint n \<and> sint n \<le> int (unat sz)"
proof -
  from read_loop_count [OF assms(1) order_refl assms(3) [unfolded internal_read_def]]
  obtain k where k: "n = ucast k" "k \<le> sz" "unat k = consumed s1 - consumed s"
    by auto
  from k(2) assms(2) have "k < 2 ^ 31" by (rule le_less_trans)
  from narrow_exact [OF this] k(1) have "sint n = int (unat k)" by simp
  moreover from k(2) have "uint k \<le> uint sz" by (simp add: word_le_def)
  ultimately show ?thesis unfolding k(3) [symmetric] by auto
qed

lemma write_count_in_range:
  assumes "within_request (pending s) sz" "sz < 2 ^ 31" "internal_write p sz s = (Returns n, s1)"
  shows "sint n = int (emitted s1 - emitted s) \<and> 0 \<le> sint n \<and> sint n \<le> int (unat sz)"
proof -
  from write_loop_count [OF assms(1) order_refl assms(3) [unfolded internal_write_def]]
  obtain k where k: "n = ucast k" "k \<le> sz" "unat k = emitted s1 - emitted s"
    by auto
  from k(2) assms(2) have "k < 2 ^ 31" by (rule le_less_trans)
  from narrow_exact [OF this] k(1) have "sint n = int (unat k)" by simp
  moreover from k(2) have "uint k \<le> uint sz" by (simp add: word_le_def)
  ultimately show ?thesis unfolding k(3) [symmetric] by auto
qed

subsection \<open>A zero result stops the loop\<close>

text \<open>
  After positive results \<open>pre\<close> that together stay below the size, a zero result ends the
  loop: it returns the number of bytes of \<open>pre\<close>, converted to \<^verbatim>\<open>int\<close>, and leaves the later
  results \<open>post\<close> pending.
\<close>

lemma read_loop_stops_at_zero:
  "\<forall>r \<in> set pre. 0 <s r \<Longrightarrow> sum_list (map unat pre) < unat remaining \<Longrightarrow>
   remaining \<le> sz \<Longrightarrow> pending s = pre @ 0 # post \<Longrightarrow>
   \<exists>s1. read_loop buffer sz remaining s =
          (Returns (ucast (sz - remaining + of_nat (sum_list (map unat pre)))), s1) \<and>
        pending s1 = post \<and> consumed s1 = consumed s + sum_list (map unat pre)"
proof (induction pre arbitrary: s remaining)
  case Nil
  then have "0 < remaining" by (simp add: word_less_nat_alt)
  with Nil show ?case by (simp add: read_loop_eof log_event_def)
next
  case (Cons r pre)
  from Cons.prems(2) have pos: "0 < remaining" by (simp add: word_less_nat_alt)
  from Cons.prems(1) have r: "0 <s r" by simp
  from Cons.prems(2) have le: "r \<le> remaining" by (simp add: word_le_nat_alt)
  note ar = remaining_sub [OF le Cons.prems(3)]
  let ?s2 = "log_event (SysRead (buffer + unat (sz - remaining)) remaining r)
      ((store_input (buffer + unat (sz - remaining)) (unat r) s)\<lparr>pending := pre @ 0 # post\<rparr>)"
  have p: "pending s = r # pre @ 0 # post" using Cons.prems(4) by simp
  have "sum_list (map unat pre) < unat (remaining - r)"
    using Cons.prems(2) ar(2) by simp
  moreover have "\<forall>r \<in> set pre. 0 <s r" using Cons.prems(1) by simp
  moreover have "pending ?s2 = pre @ 0 # post" by (simp add: log_event_def)
  ultimately obtain s1 where s1:
    "read_loop buffer sz (remaining - r) ?s2 =
       (Returns (ucast (sz - (remaining - r) + of_nat (sum_list (map unat pre)))), s1)"
    "pending s1 = post" "consumed s1 = consumed ?s2 + sum_list (map unat pre)"
    using Cons.IH [of "remaining - r" ?s2] ar(1) by blast
  have eq: "sz - (remaining - r) + of_nat (sum_list (map unat pre)) =
        sz - remaining + of_nat (sum_list (map unat (r # pre)))"
    by simp
  have "read_loop buffer sz remaining s =
      (Returns (ucast (sz - remaining + of_nat (sum_list (map unat (r # pre))))), s1)"
    using s1(1) read_loop_step [OF pos p r, of buffer sz] by (simp only: eq)
  moreover have "consumed ?s2 = consumed s + unat r"
    by (simp add: log_event_def store_input_def)
  ultimately show ?case
    using s1(2,3) by simp
qed

lemma write_loop_stops_at_zero:
  "\<forall>r \<in> set pre. 0 <s r \<Longrightarrow> sum_list (map unat pre) < unat remaining \<Longrightarrow>
   remaining \<le> sz \<Longrightarrow> pending s = pre @ 0 # post \<Longrightarrow>
   \<exists>s1. write_loop buffer sz remaining s =
          (Returns (ucast (sz - remaining + of_nat (sum_list (map unat pre)))), s1) \<and>
        pending s1 = post \<and> emitted s1 = emitted s + sum_list (map unat pre)"
proof (induction pre arbitrary: s remaining)
  case Nil
  then have "0 < remaining" by (simp add: word_less_nat_alt)
  with Nil show ?case by (simp add: write_loop_eof log_event_def)
next
  case (Cons r pre)
  from Cons.prems(2) have pos: "0 < remaining" by (simp add: word_less_nat_alt)
  from Cons.prems(1) have r: "0 <s r" by simp
  from Cons.prems(2) have le: "r \<le> remaining" by (simp add: word_le_nat_alt)
  note ar = remaining_sub [OF le Cons.prems(3)]
  let ?s2 = "log_event (SysWrite (buffer + unat (sz - remaining)) remaining r)
      ((load_output (buffer + unat (sz - remaining)) (unat r) s)\<lparr>pending := pre @ 0 # post\<rparr>)"
  have p: "pending s = r # pre @ 0 # post" using Cons.prems(4) by simp
  have "sum_list (map unat pre) < unat (remaining - r)"
    using Cons.prems(2) ar(2) by simp
  moreover have "\<forall>r \<in> set pre. 0 <s r" using Cons.prems(1) by simp
  moreover have "pending ?s2 = pre @ 0 # post" by (simp add: log_event_def)
  ultimately obtain s1 where s1:
    "write_loop buffer sz (remaining - r) ?s2 =
       (Returns (ucast (sz - (remaining - r) + of_nat (sum_list (map unat pre)))), s1)"
    "pending s1 = post" "emitted s1 = emitted ?s2 + sum_list (map unat pre)"
    using Cons.IH [of "remaining - r" ?s2] ar(1) by blast
  have eq: "sz - (remaining - r) + of_nat (sum_list (map unat pre)) =
        sz - remaining + of_nat (sum_list (map unat (r # pre)))"
    by simp
  have "write_loop buffer sz remaining s =
      (Returns (ucast (sz - remaining + of_nat (sum_list (map unat (r # pre))))), s1)"
    using s1(1) write_loop_step [OF pos p r, of buffer sz] by (simp only: eq)
  moreover have "emitted ?s2 = emitted s + unat r"
    by (simp add: log_event_def load_output_def)
  ultimately show ?case
    using s1(2,3) by simp
qed

lemma early_stop_in_range:
  assumes "\<forall>r \<in> set pre. 0 <s r" and "sum_list (map unat pre) < unat sz"
    and "sz < 2 ^ 31" and "pending s = pre @ 0 # post"
  shows "\<exists>n s1. internal_read p sz s = (Returns n, s1) \<and>
           sint n = int (sum_list (map unat pre)) \<and> pending s1 = post"
    and "\<exists>n s1. internal_write p sz s = (Returns n, s1) \<and>
           sint n = int (sum_list (map unat pre)) \<and> pending s1 = post"
proof -
  let ?k = "of_nat (sum_list (map unat pre)) :: size_t"
  have u: "unat ?k = sum_list (map unat pre)"
    using assms(2) by (intro le_unat_uoi [of _ sz]) simp
  then have "?k < sz" using assms(2) by (simp add: word_less_nat_alt)
  then have "?k < 2 ^ 31" using assms(3) by (rule less_trans)
  from narrow_exact [OF this] u
  have n: "sint (ucast ?k :: c_int) = int (sum_list (map unat pre))" by simp
  show "\<exists>n s1. internal_read p sz s = (Returns n, s1) \<and>
           sint n = int (sum_list (map unat pre)) \<and> pending s1 = post"
    using read_loop_stops_at_zero [OF assms(1,2) order_refl assms(4), of p] n
    by (auto simp: internal_read_def)
  show "\<exists>n s1. internal_write p sz s = (Returns n, s1) \<and>
           sint n = int (sum_list (map unat pre)) \<and> pending s1 = post"
    using write_loop_stops_at_zero [OF assms(1,2) order_refl assms(4), of p] n
    by (auto simp: internal_write_def)
qed

subsection \<open>Counts beyond the range of the result type\<close>

text \<open>
  C4 at a concrete input. Of 3221225472 requested bytes the primitive transfers 2147479552,
  then 4096, then reports zero. Both loops stop there, with 2147483648 bytes transferred, and
  return normally; the value they return is \<open>-2147483648\<close>.
\<close>

theorem early_stop_count_narrowed:
  "within_request [0x7ffff000, 0x1000, 0] 0xC0000000 \<and>
   fst (internal_read 16 0xC0000000 (fresh_system [0x7ffff000, 0x1000, 0])) = Returns (- 0x80000000) \<and>
   consumed (snd (internal_read 16 0xC0000000 (fresh_system [0x7ffff000, 0x1000, 0]))) = 2147483648 \<and>
   pending (snd (internal_read 16 0xC0000000 (fresh_system [0x7ffff000, 0x1000, 0]))) = [] \<and>
   fst (internal_write 16 0xC0000000 (fresh_system [0x7ffff000, 0x1000, 0])) = Returns (- 0x80000000) \<and>
   emitted (snd (internal_write 16 0xC0000000 (fresh_system [0x7ffff000, 0x1000, 0]))) = 2147483648 \<and>
   sint (- 0x80000000 :: c_int) = - 2147483648"
  by (simp add: model_defs)

text \<open>
  C9 at a concrete input. Of 4294967295 requested bytes the primitive transfers 2147479552,
  2147479552 and 8191, each at most the count still missing. Both loops return normally; the
  value they return is \<open>-1\<close>.
\<close>

theorem returned_count_negative:
  "within_request [0x7ffff000, 0x7ffff000, 0x1fff] 0xFFFFFFFF \<and>
   delivers [0x7ffff000, 0x7ffff000, 0x1fff] 0xFFFFFFFF \<and>
   fst (internal_read 16 0xFFFFFFFF (fresh_system [0x7ffff000, 0x7ffff000, 0x1fff])) = Returns (- 1) \<and>
   consumed (snd (internal_read 16 0xFFFFFFFF (fresh_system [0x7ffff000, 0x7ffff000, 0x1fff])))
     = 4294967295 \<and>
   fst (internal_write 16 0xFFFFFFFF (fresh_system [0x7ffff000, 0x7ffff000, 0x1fff])) = Returns (- 1) \<and>
   emitted (snd (internal_write 16 0xFFFFFFFF (fresh_system [0x7ffff000, 0x7ffff000, 0x1fff])))
     = 4294967295 \<and>
   sint (- 1 :: c_int) = - 1"
  by (simp add: model_defs)

end
